theory Spec2Isabelle
  imports Main
begin

section \<open>Strings and values of the input snapshot\<close>

text \<open>
  A JavaScript string is a sequence of code units. The model uses \<^typ>\<open>string\<close>, whose
  characters are the code units below 256 (ASCII and Latin-1), which is where every
  character named by the validation code lies.
\<close>

definition is_space :: "char \<Rightarrow> bool" where
  \<comment> \<open>the regular-expression class \<open>\s\<close> on code units below 256:
      TAB, LF, VT, FF, CR, space and the no-break space\<close>
  "is_space c = ((of_char c :: nat) = 9 \<or> (of_char c :: nat) = 10 \<or> (of_char c :: nat) = 11
     \<or> (of_char c :: nat) = 12 \<or> (of_char c :: nat) = 13 \<or> (of_char c :: nat) = 32
     \<or> (of_char c :: nat) = 160)"

definition toLowerCase_char :: "char \<Rightarrow> char" where
  \<comment> \<open>\<open>String.prototype.toLowerCase\<close> on one code unit below 256: A-Z and the
      Latin-1 capitals (0xC0-0xDE without the multiplication sign 0xD7) move up by 32\<close>
  "toLowerCase_char c =
     (if (65 \<le> (of_char c :: nat) \<and> (of_char c :: nat) \<le> 90)
        \<or> (192 \<le> (of_char c :: nat) \<and> (of_char c :: nat) \<le> 222 \<and> (of_char c :: nat) \<noteq> 215)
      then char_of ((of_char c :: nat) + 32) else c)"

definition toLowerCase :: "string \<Rightarrow> string" where
  "toLowerCase s = map toLowerCase_char s"

fun join :: "string \<Rightarrow> string list \<Rightarrow> string" where
  \<comment> \<open>\<open>Array.prototype.join\<close> on an array of strings\<close>
  "join sep [] = []"
| "join sep [x] = x"
| "join sep (x # y # ys) = x @ sep @ join sep (y # ys)"

datatype jsval =
    Undefined
  | Null
  | Bool bool
  | Num int    \<comment> \<open>an integral number (below \<open>10^21\<close> in size, where JavaScript prints all digits)\<close>
  | Str string
  | Arr "jsval list"
  | Obj        \<comment> \<open>a plain object with the inherited \<open>toString\<close>\<close>

fun dec_nat :: "nat \<Rightarrow> string" where
  "dec_nat n = (if n < 10 then [char_of (48 + n)] else dec_nat (n div 10) @ [char_of (48 + n mod 10)])"

declare dec_nat.simps [simp del]

definition dec_int :: "int \<Rightarrow> string" where
  "dec_int i = (if i < 0 then CHR ''-'' # dec_nat (nat (- i)) else dec_nat (nat i))"

fun to_string :: "jsval \<Rightarrow> string" where
  \<comment> \<open>the string conversion that a template literal \<open>`${val}`\<close> and \<open>RegExp.test(val)\<close>
      apply to their argument; an array joins its elements with commas, with null and
      undefined elements printed as nothing\<close>
  "to_string Undefined = ''undefined''"
| "to_string Null = ''null''"
| "to_string (Bool b) = (if b then ''true'' else ''false'')"
| "to_string (Num i) = dec_int i"
| "to_string (Str s) = s"
| "to_string (Arr xs) =
     join '','' (map (\<lambda>x. if x = Undefined \<or> x = Null then [] else to_string x) xs)"
| "to_string Obj = ''[object Object]''"

section \<open>Regular expressions\<close>

text \<open>
  The patterns of the validation service, as syntax trees, and \<open>RegExp.prototype.test\<close> for
  a pattern anchored by \<open>^\<close> and \<open>$\<close> (without the multiline flag): the whole string
  has to match. The patterns have no back-references or look-around, so the backtracking
  search of the engine finds a match exactly when the string is in the language of the
  pattern; the model decides that by derivatives.
\<close>

datatype citem =
    C char          \<comment> \<open>one character of a class\<close>
  | R char char     \<comment> \<open>a range \<open>a-b\<close>\<close>
  | WS              \<comment> \<open>\<open>\s\<close>\<close>

fun item_has :: "citem \<Rightarrow> char \<Rightarrow> bool" where
  "item_has (C x) c = (c = x)"
| "item_has (R a b) c = ((of_char a :: nat) \<le> of_char c \<and> (of_char c :: nat) \<le> of_char b)"
| "item_has WS c = is_space c"

datatype cclass =
    Lit char               \<comment> \<open>a literal character\<close>
  | AnyChar                \<comment> \<open>the dot: any character but a line terminator\<close>
  | OneOf "citem list"     \<comment> \<open>\<open>[...]\<close>\<close>
  | NoneOf "citem list"    \<comment> \<open>\<open>[^...]\<close>\<close>

fun class_has :: "cclass \<Rightarrow> char \<Rightarrow> bool" where
  "class_has (Lit x) c = (c = x)"
| "class_has AnyChar c = (c \<noteq> CHR 0x0A \<and> c \<noteq> CHR 0x0D)"
| "class_has (OneOf its) c = list_ex (\<lambda>i. item_has i c) its"
| "class_has (NoneOf its) c = (\<not> list_ex (\<lambda>i. item_has i c) its)"

datatype regex = Fail | Eps | Sym cclass | Seq regex regex | Alt regex regex | Star regex

fun nullable :: "regex \<Rightarrow> bool" where
  "nullable Fail = False"
| "nullable Eps = True"
| "nullable (Sym k) = False"
| "nullable (Seq a b) = (nullable a \<and> nullable b)"
| "nullable (Alt a b) = (nullable a \<or> nullable b)"
| "nullable (Star a) = True"

fun seq :: "regex \<Rightarrow> regex \<Rightarrow> regex" where
  "seq Fail b = Fail"
| "seq Eps b = b"
| "seq a b = Seq a b"

fun alt :: "regex \<Rightarrow> regex \<Rightarrow> regex" where
  "alt Fail b = b"
| "alt a Fail = a"
| "alt a b = Alt a b"

fun deriv :: "char \<Rightarrow> regex \<Rightarrow> regex" where
  "deriv c Fail = Fail"
| "deriv c Eps = Fail"
| "deriv c (Sym k) = (if class_has k c then Eps else Fail)"
| "deriv c (Seq a b) =
     (if nullable a then alt (seq (deriv c a) b) (deriv c b) else seq (deriv c a) b)"
| "deriv c (Alt a b) = alt (deriv c a) (deriv c b)"
| "deriv c (Star a) = seq (deriv c a) (Star a)"

definition test :: "regex \<Rightarrow> string \<Rightarrow> bool" where
  "test r s = nullable (fold deriv s r)"

text \<open>The strings that a pattern matches, by the structure of the pattern.\<close>

inductive matches :: "regex \<Rightarrow> string \<Rightarrow> bool" where
  m_eps: "matches Eps []"
| m_sym: "class_has k c \<Longrightarrow> matches (Sym k) [c]"
| m_seq: "matches a u \<Longrightarrow> matches b v \<Longrightarrow> matches (Seq a b) (u @ v)"
| m_alt1: "matches a w \<Longrightarrow> matches (Alt a b) w"
| m_alt2: "matches b w \<Longrightarrow> matches (Alt a b) w"
| m_star0: "matches (Star a) []"
| m_star: "matches a (c # u) \<Longrightarrow> matches (Star a) v \<Longrightarrow> matches (Star a) (c # u @ v)"

definition lits :: "string \<Rightarrow> regex" where
  \<comment> \<open>a run of literal characters\<close>
  "lits s = foldr (\<lambda>c r. Seq (Sym (Lit c)) r) s Eps"

definition plus :: "regex \<Rightarrow> regex" where
  \<comment> \<open>\<open>r+\<close>\<close>
  "plus r = Seq r (Star r)"

definition opt :: "regex \<Rightarrow> regex" where
  "opt r = Alt r Eps"

definition rep_1_3 :: "regex \<Rightarrow> regex" where
  \<comment> \<open>\<open>r{1,3}\<close>\<close>
  "rep_1_3 r = Seq r (opt (Seq r (opt r)))"

definition rep_2_up :: "regex \<Rightarrow> regex" where
  \<comment> \<open>\<open>r{2,}\<close>\<close>
  "rep_2_up r = Seq r (Seq r (Star r))"

definition dquote :: char where
  "dquote = CHR 0x22"

definition backslash :: char where
  "backslash = CHR 0x5C"


section \<open>Objects and their key order\<close>

text \<open>
  \<open>rules\<close>, \<open>fields\<close> and \<open>fieldErrors\<close> are plain objects used as dictionaries and
  walked with \<open>for (key in object)\<close>. An object lists its own keys with the array indices
  first, in ascending numeric order, and then the other keys in the order in which they
  were created; assigning to an existing key keeps its place. An object is the list of its
  own properties in that order.
\<close>

type_synonym 'a obj = "(string \<times> 'a) list"

definition is_digit :: "char \<Rightarrow> bool" where
  "is_digit c = (48 \<le> (of_char c :: nat) \<and> (of_char c :: nat) \<le> 57)"

definition index_value :: "string \<Rightarrow> int" where
  \<comment> \<open>the number that a string of digits denotes\<close>
  "index_value s = foldl (\<lambda>n c. 10 * n + ((of_char c :: int) - 48)) 0 s"

definition is_array_index :: "string \<Rightarrow> bool" where
  \<comment> \<open>the canonical decimal numeral of an integer from 0 to \<open>2^32 - 2\<close>\<close>
  "is_array_index s =
     (s \<noteq> [] \<and> list_all is_digit s \<and> (s = ''0'' \<or> take 1 s \<noteq> ''0'')
      \<and> index_value s < 4294967295)"

fun insert_index :: "string \<Rightarrow> 'a \<Rightarrow> 'a obj \<Rightarrow> 'a obj" where
  \<comment> \<open>a new array-index key goes after the smaller array indices\<close>
  "insert_index k v [] = [(k, v)]"
| "insert_index k v (p # ps) =
     (if is_array_index (fst p) \<and> index_value (fst p) < index_value k
      then p # insert_index k v ps else (k, v) # p # ps)"

definition obj_get :: "'a obj \<Rightarrow> string \<Rightarrow> 'a option" where
  \<comment> \<open>the own property \<open>o[k]\<close>, if there is one\<close>
  "obj_get ob k = map_of ob k"

definition obj_keys :: "'a obj \<Rightarrow> string list" where
  \<comment> \<open>the keys as \<open>for (k in o)\<close> walks them\<close>
  "obj_keys ob = map fst ob"

definition obj_set :: "string \<Rightarrow> 'a \<Rightarrow> 'a obj \<Rightarrow> 'a obj" where
  \<comment> \<open>\<open>o[k] = v\<close>\<close>
  "obj_set k v ob =
     (if k \<in> set (obj_keys ob) then map (\<lambda>p. if fst p = k then (k, v) else p) ob
      else if is_array_index k then insert_index k v ob
      else ob @ [(k, v)])"

definition object_prototype_names :: "string list" where
  \<comment> \<open>the members every plain object inherits from \<open>Object.prototype\<close>; reading one of
      them from an object that has no own property of that name yields the inherited
      member, which is truthy\<close>
  "object_prototype_names =
     [''constructor'', ''__proto__'', ''hasOwnProperty'', ''isPrototypeOf'',
      ''propertyIsEnumerable'', ''toLocaleString'', ''toString'', ''valueOf'',
      ''__defineGetter__'', ''__defineSetter__'', ''__lookupGetter__'', ''__lookupSetter__'']"

type_synonym input = "string \<Rightarrow> jsval option"

section \<open>The moment library\<close>

text \<open>
  The date rules hand their values to the moment library, which is not part of the
  repository. A moment is modelled by what the rules observe of it: whether it is valid,
  and its time value in milliseconds. The constructor \<open>moment(x)\<close> for a value that is
  not yet a moment, and \<open>toString\<close>, are parameters of the model. The comparisons are the
  library's documented ones at millisecond granularity: they are false as soon as one of
  the two moments is invalid.

  The constructor reads the clock: for an undefined value the library makes the moment of
  the current time. The reading of the clock at the call, in milliseconds, is therefore an
  argument of the constructor, and of everything that calls it: of the predicates of the
  rules when a field is checked, and of the rule methods that turn their bound into a
  moment when the rule is attached. One call of \<open>validate\<close>, and one sequence of
  declarations, is taken at one reading.
\<close>

type_synonym moment = "int option"

datatype MomentInput = IsMoment moment | NotMoment jsval

record moment_lib =
  moment_of :: "int \<Rightarrow> jsval \<Rightarrow> moment"   \<comment> \<open>\<open>moment(x)\<close>, called when the clock reads the first argument\<close>
  moment_toString :: "moment \<Rightarrow> string"   \<comment> \<open>\<open>m.toString()\<close>\<close>

fun as_moment :: "moment_lib \<Rightarrow> int \<Rightarrow> MomentInput \<Rightarrow> moment" where
  \<comment> \<open>the comparisons take a moment as it is and construct one from anything else\<close>
  "as_moment lib now (IsMoment m) = m"
| "as_moment lib now (NotMoment v) = moment_of lib now v"

fun moment_isValid :: "moment \<Rightarrow> bool" where
  "moment_isValid None = False"
| "moment_isValid (Some t) = True"

fun moment_isAfter :: "moment \<Rightarrow> moment \<Rightarrow> bool" where
  "moment_isAfter (Some a) (Some b) = (b < a)"
| "moment_isAfter a b = False"

fun moment_isSame :: "moment \<Rightarrow> moment \<Rightarrow> bool" where
  "moment_isSame (Some a) (Some b) = (a = b)"
| "moment_isSame a b = False"

fun moment_isBefore :: "moment \<Rightarrow> moment \<Rightarrow> bool" where
  "moment_isBefore (Some a) (Some b) = (a < b)"
| "moment_isBefore a b = False"

definition moment_isSameOrAfter :: "moment \<Rightarrow> moment \<Rightarrow> bool" where
  "moment_isSameOrAfter a b = (moment_isSame a b \<or> moment_isAfter a b)"

definition moment_isSameOrBefore :: "moment \<Rightarrow> moment \<Rightarrow> bool" where
  "moment_isSameOrBefore a b = (moment_isSame a b \<or> moment_isBefore a b)"

section \<open>The validation service\<close>

definition atext_cooked :: regex where
  \<comment> \<open>\<open>[^<>()[]\.,;:s@"]+\<close>: the class ends at the first \<open>]\<close>, and what follows are
      literals\<close>
  "atext_cooked =
     Seq (Sym (NoneOf [C CHR ''<'', C CHR ''>'', C CHR ''('', C CHR '')'', C CHR ''['']))
       (Seq (lits (''.,;:s@'' @ [dquote])) (plus (Sym (Lit CHR '']''))))"

definition email_regex :: regex where
  \<comment> \<open>The pattern that \<open>isEmail\<close> compiles. The source writes it in two template literals,
      where a backslash escapes the next character of the literal: \<open>\]\<close>, \<open>\s\<close>, \<open>\"\<close>,
      \<open>\.\<close>, \<open>\[\<close> and \<open>\-\<close> are the bare characters and \<open>\\\<close> is one backslash.
      The string handed to \<open>new RegExp\<close> is therefore

      \<^verbatim>\<open>^(([^<>()[]\.,;:s@"]+(.[^<>()[]\.,;:s@"]+)*)|(".+"))\<close>
      \<^verbatim>\<open>@(([[0-9]{1,3}.[0-9]{1,3}.[0-9]{1,3}.[0-9]{1,3}])|(([a-zA-Z-0-9]+.)+[a-zA-Z]{2,}))$\<close>\<close>
  "email_regex =
     Seq (Alt (Seq atext_cooked (Star (Seq (Sym AnyChar) atext_cooked)))
              (Seq (Sym (Lit dquote)) (Seq (plus (Sym AnyChar)) (Sym (Lit dquote)))))
    (Seq (Sym (Lit CHR ''@''))
      (Alt (Seq (rep_1_3 (Sym (OneOf [C CHR ''['', R CHR ''0'' CHR ''9''])))
           (Seq (Sym AnyChar) (Seq (rep_1_3 (Sym (OneOf [R CHR ''0'' CHR ''9''])))
           (Seq (Sym AnyChar) (Seq (rep_1_3 (Sym (OneOf [R CHR ''0'' CHR ''9''])))
           (Seq (Sym AnyChar) (Seq (rep_1_3 (Sym (OneOf [R CHR ''0'' CHR ''9''])))
           (Sym (Lit CHR '']''))))))))) 
           (Seq (plus (Seq (plus (Sym (OneOf [R CHR ''a'' CHR ''z'', R CHR ''A'' CHR ''Z'',
                                              C CHR ''-'', R CHR ''0'' CHR ''9''])))
                           (Sym AnyChar)))
                (rep_2_up (Sym (OneOf [R CHR ''a'' CHR ''z'', R CHR ''A'' CHR ''Z'']))))))"

definition isEmail :: "jsval \<Rightarrow> bool" where
  "isEmail val = test email_regex (to_string val)"

definition atext_spec :: regex where
  \<comment> \<open>one atom of the local part: \<open>[^<>()[\]\\.,;:\s@"]+\<close>\<close>
  "atext_spec =
     plus (Sym (NoneOf [C CHR ''<'', C CHR ''>'', C CHR ''('', C CHR '')'', C CHR ''['',
                        C CHR '']'', C backslash, C CHR ''.'', C CHR '','', C CHR '';'',
                        C CHR '':'', WS, C CHR ''@'', C dquote]))"

definition email_pattern_spec :: regex where
  \<comment> \<open>The pattern as the specification words it, which is the text of the source read as
      a regular expression: a local part of dot-separated atoms or a quoted string, \<open>@\<close>,
      then a bracketed dotted quad or a dot-separated domain whose last label is at least
      two letters.\<close>
  "email_pattern_spec =
     Seq (Alt (Seq atext_spec (Star (Seq (Sym (Lit CHR ''.'')) atext_spec)))
              (Seq (Sym (Lit dquote)) (Seq (plus (Sym AnyChar)) (Sym (Lit dquote)))))
    (Seq (Sym (Lit CHR ''@''))
      (Alt (Seq (Sym (Lit CHR ''[''))
           (Seq (rep_1_3 (Sym (OneOf [R CHR ''0'' CHR ''9''])))
           (Seq (Sym (Lit CHR ''.'')) (Seq (rep_1_3 (Sym (OneOf [R CHR ''0'' CHR ''9''])))
           (Seq (Sym (Lit CHR ''.'')) (Seq (rep_1_3 (Sym (OneOf [R CHR ''0'' CHR ''9''])))
           (Seq (Sym (Lit CHR ''.'')) (Seq (rep_1_3 (Sym (OneOf [R CHR ''0'' CHR ''9''])))
           (Sym (Lit CHR '']''))))))))))
           (Seq (plus (Seq (plus (Sym (OneOf [R CHR ''a'' CHR ''z'', R CHR ''A'' CHR ''Z'',
                                              C CHR ''-'', R CHR ''0'' CHR ''9''])))
                           (Sym (Lit CHR ''.''))))
                (rep_2_up (Sym (OneOf [R CHR ''a'' CHR ''z'', R CHR ''A'' CHR ''Z'']))))))"

fun isAccepted :: "jsval \<Rightarrow> bool" where
  "isAccepted (Str s) = (toLowerCase s = ''yes'')"
| "isAccepted (Bool b) = (b = True)"
| "isAccepted (Num i) = (i = 1)"
| "isAccepted v = False"

definition isDate :: "moment_lib \<Rightarrow> int \<Rightarrow> jsval \<Rightarrow> bool" where
  "isDate lib now date = moment_isValid (moment_of lib now date)"

fun isNone :: "jsval \<Rightarrow> bool" where
  \<comment> \<open>Modelled from the spec: \<open>_.isNone\<close> of \<open>./misc\<close>, which is not among the sources;
      the specification calls a value absent when it is null or undefined.\<close>
  "isNone Undefined = True"
| "isNone Null = True"
| "isNone v = False"

definition isEmpty :: "jsval \<Rightarrow> bool" where
  "isEmpty val =
     (if isNone val then True
      else let str = filter (\<lambda>c. \<not> is_space c) (to_string val)
           in (if length str > 0 then False else True))"

definition isAfter :: "moment_lib \<Rightarrow> int \<Rightarrow> jsval \<Rightarrow> MomentInput \<Rightarrow> bool" where
  "isAfter lib now dateToCheck afterDate =
     moment_isAfter (moment_of lib now dateToCheck) (as_moment lib now afterDate)"

definition isAfterOrEqual :: "moment_lib \<Rightarrow> int \<Rightarrow> jsval \<Rightarrow> MomentInput \<Rightarrow> bool" where
  "isAfterOrEqual lib now dateToCheck afterDate =
     moment_isSameOrAfter (moment_of lib now dateToCheck) (as_moment lib now afterDate)"

definition isAlpha :: "jsval \<Rightarrow> bool" where
  "isAlpha val = test (plus (Sym (OneOf [R CHR ''a'' CHR ''z'', R CHR ''A'' CHR ''Z'']))) (to_string val)"

definition isAlphaDash :: "jsval \<Rightarrow> bool" where
  "isAlphaDash val =
     test (plus (Sym (OneOf [R CHR ''a'' CHR ''z'', R CHR ''A'' CHR ''Z'', R CHR ''0'' CHR ''9'',
                             C CHR ''_'', C CHR ''-''])))
       (to_string val)"

definition isAlphaNum :: "jsval \<Rightarrow> bool" where
  "isAlphaNum val =
     test (plus (Sym (OneOf [R CHR ''a'' CHR ''z'', R CHR ''A'' CHR ''Z'', R CHR ''0'' CHR ''9''])))
       (to_string val)"

fun isArray :: "jsval \<Rightarrow> bool" where
  "isArray (Arr xs) = True"
| "isArray v = False"

definition isBefore :: "moment_lib \<Rightarrow> int \<Rightarrow> jsval \<Rightarrow> MomentInput \<Rightarrow> bool" where
  "isBefore lib now dateToCheck beforeDate =
     moment_isBefore (moment_of lib now dateToCheck) (as_moment lib now beforeDate)"

definition isBeforeOrEqual :: "moment_lib \<Rightarrow> int \<Rightarrow> jsval \<Rightarrow> MomentInput \<Rightarrow> bool" where
  "isBeforeOrEqual lib now dateToCheck beforeDate =
     moment_isSameOrBefore (moment_of lib now dateToCheck) (as_moment lib now beforeDate)"


definition RULE_MESSAGES_accepted :: string where
  "RULE_MESSAGES_accepted = ''The ${label} must be accepted.''"

definition RULE_MESSAGES_after :: string where
  "RULE_MESSAGES_after = ''The ${label} must be a date after ${date}.''"

definition RULE_MESSAGES_afterOrEqual :: string where
  "RULE_MESSAGES_afterOrEqual = ''The ${label} must be a date after or equal to ${date}.''"

definition RULE_MESSAGES_alpha :: string where
  "RULE_MESSAGES_alpha = ''The ${label} may only contain letters.''"

definition RULE_MESSAGES_alphaDash :: string where
  "RULE_MESSAGES_alphaDash = ''The ${label} may only contain letters, numbers, and dashes.''"

definition RULE_MESSAGES_alphaNum :: string where
  "RULE_MESSAGES_alphaNum = ''The ${label} may only contain letters and numbers.''"

definition RULE_MESSAGES_array :: string where
  "RULE_MESSAGES_array = ''The ${label} must be an array.''"

definition RULE_MESSAGES_before :: string where
  "RULE_MESSAGES_before = ''The ${label} must be a date before ${date}.''"

definition RULE_MESSAGES_beforeOrEqual :: string where
  "RULE_MESSAGES_beforeOrEqual = ''The ${label} must be a date before or equal to ${date}.''"

definition RULE_MESSAGES_date :: string where
  "RULE_MESSAGES_date = ''The ${label} is not a valid date.''"

definition RULE_MESSAGES_email :: string where
  "RULE_MESSAGES_email = ''The ${label} must be a valid email address.''"

definition RULE_MESSAGES_required :: string where
  "RULE_MESSAGES_required = ''The ${label} field is required.''"

section \<open>Rules and failure records\<close>

record FieldValidationError =
  rule :: string
  message :: string

record FormValidationError =
  error_fields :: "FieldValidationError list obj"   \<comment> \<open>\<open>fields\<close>\<close>
  error_message :: string                            \<comment> \<open>\<open>message\<close>\<close>
  error_name :: string                               \<comment> \<open>\<open>name\<close>\<close>

datatype exn = Thrown string
  \<comment> \<open>a value thrown by a rule's predicate\<close>

datatype raised =
    Passed_on exn                    \<comment> \<open>what a predicate threw, not caught on the way\<close>
  | Invalid FormValidationError      \<comment> \<open>\<open>throw new FormValidationError(...)\<close>\<close>

datatype handled =
    Returns bool                \<comment> \<open>the predicate returns a boolean\<close>
  | Promises "exn + bool"       \<comment> \<open>it returns a promise, which rejects or resolves\<close>
  | Throws exn                  \<comment> \<open>it throws\<close>

text \<open>
  \<open>handle\<close> is called with the field rule set as \<open>this\<close>; what a predicate reads there
  is the input snapshot of the form and the name of the field, which are its arguments
  here, after the reading of the clock when it is called.
\<close>

record ValidationRule =
  name :: string
  async :: bool
  handle :: "int \<Rightarrow> input \<Rightarrow> string \<Rightarrow> handled"
  rule_message :: string                 \<comment> \<open>\<open>message\<close>, the template\<close>
  attrs :: "(string \<times> string) list"

fun template_from :: "string option \<Rightarrow> string \<Rightarrow> (string \<times> string) list \<Rightarrow> string" where
  \<comment> \<open>the first argument is the placeholder name read so far, once inside \<open>${\<close>\<close>
  "template_from None [] a = []"
| "template_from None (c # cs) a =
     (if c = CHR ''$'' \<and> take 1 cs = ''{'' then template_from (Some []) (drop 1 cs) a
      else c # template_from None cs a)"
| "template_from (Some k) [] a = ''${'' @ k"
| "template_from (Some k) (c # cs) a =
     (if c = CHR ''}'' then (case map_of a k of None \<Rightarrow> [] | Some v \<Rightarrow> v) @ template_from None cs a
      else template_from (Some (k @ [c])) cs a)"

definition template :: "string \<Rightarrow> (string \<times> string) list \<Rightarrow> string" where
  \<comment> \<open>Modelled from the spec: \<open>_.template\<close> of \<open>./misc\<close>, which is not among the sources.
      Rendering substitutes the attributes into the placeholders \<open>${key}\<close> of the
      template verbatim; a key that is missing renders as nothing.\<close>
  "template msg a = template_from None msg a"

section \<open>Field rule sets\<close>

record FieldValidator =
  rules :: "ValidationRule obj"
  errors :: "FieldValidationError list"
  fieldName :: string
  fieldLabel :: string

definition or_default :: "string option \<Rightarrow> string \<Rightarrow> string" where
  \<comment> \<open>\<open>given || fallback\<close> on an optional string: the empty string is falsy\<close>
  "or_default given fallback =
     (case given of None \<Rightarrow> fallback | Some s \<Rightarrow> if s = [] then fallback else s)"

definition new_FieldValidator :: "(string \<Rightarrow> string) \<Rightarrow> string \<Rightarrow> string option \<Rightarrow> FieldValidator" where
  \<comment> \<open>the constructor; \<open>lowerCase\<close> is \<open>_.lowerCase\<close> of \<open>./misc\<close>, which is not among
      the sources and is a parameter\<close>
  "new_FieldValidator lowerCase fname flabel =
     \<lparr>rules = [], errors = [], fieldName = fname,
      fieldLabel = or_default flabel (lowerCase fname)\<rparr>"

definition getInput :: "input \<Rightarrow> string \<Rightarrow> jsval" where
  \<comment> \<open>\<open>this.input[key]\<close>\<close>
  "getInput inp key = (case inp key of None \<Rightarrow> Undefined | Some v \<Rightarrow> v)"

definition email :: "string option \<Rightarrow> FieldValidator \<Rightarrow> FieldValidator" where
  "email msg this = this\<lparr>rules := obj_set ''email''
     \<lparr>name = ''email'', async = False,
      handle = (\<lambda>now inp fname. Returns (isEmail (getInput inp fname))),
      rule_message = or_default msg RULE_MESSAGES_email,
      attrs = [(''label'', fieldLabel this)]\<rparr> (rules this)\<rparr>"

definition accepted :: "string option \<Rightarrow> FieldValidator \<Rightarrow> FieldValidator" where
  "accepted msg this = this\<lparr>rules := obj_set ''accepted''
     \<lparr>name = ''accepted'', async = False,
      handle = (\<lambda>now inp fname. Returns (isAccepted (getInput inp fname))),
      rule_message = or_default msg RULE_MESSAGES_accepted,
      attrs = [(''label'', fieldLabel this)]\<rparr> (rules this)\<rparr>"

definition after :: "moment_lib \<Rightarrow> int \<Rightarrow> MomentInput \<Rightarrow> string option \<Rightarrow> FieldValidator \<Rightarrow> FieldValidator" where
  \<comment> \<open>\<open>earlier\<close> is the reading of the clock when the rule is attached\<close>
  "after lib earlier date0 msg this =
     (let date = IsMoment (as_moment lib earlier date0) in
      this\<lparr>rules := obj_set ''after''
       \<lparr>name = ''after'', async = False,
        handle = (\<lambda>now inp fname. Returns (isAfter lib now (getInput inp fname) date)),
        rule_message = or_default msg RULE_MESSAGES_after,
        attrs = [(''label'', fieldLabel this),
                 (''date'', moment_toString lib (as_moment lib earlier date))]\<rparr> (rules this)\<rparr>)"

definition date :: "moment_lib \<Rightarrow> string option \<Rightarrow> FieldValidator \<Rightarrow> FieldValidator" where
  "date lib msg this = this\<lparr>rules := obj_set ''date''
     \<lparr>name = ''date'', async = False,
      handle = (\<lambda>now inp fname. Returns (isDate lib now (getInput inp fname))),
      rule_message = or_default msg RULE_MESSAGES_date,
      attrs = [(''label'', fieldLabel this)]\<rparr> (rules this)\<rparr>"

definition required :: "string option \<Rightarrow> FieldValidator \<Rightarrow> FieldValidator" where
  "required msg this = this\<lparr>rules := obj_set ''required''
     \<lparr>name = ''required'', async = False,
      handle = (\<lambda>now inp fname. Returns (\<not> isEmpty (getInput inp fname))),
      rule_message = or_default msg RULE_MESSAGES_required,
      attrs = [(''label'', fieldLabel this)]\<rparr> (rules this)\<rparr>"

definition afterOrEqual :: "moment_lib \<Rightarrow> int \<Rightarrow> MomentInput \<Rightarrow> string option \<Rightarrow> FieldValidator \<Rightarrow> FieldValidator" where
  \<comment> \<open>\<open>earlier\<close> is the reading of the clock when the rule is attached\<close>
  "afterOrEqual lib earlier date0 msg this =
     (let date = IsMoment (as_moment lib earlier date0) in
      this\<lparr>rules := obj_set ''afterOrEqual''
       \<lparr>name = ''afterOrEqual'', async = False,
        handle = (\<lambda>now inp fname. Returns (isAfterOrEqual lib now (getInput inp fname) date)),
        rule_message = or_default msg RULE_MESSAGES_afterOrEqual,
        attrs = [(''label'', fieldLabel this),
                 (''date'', moment_toString lib (as_moment lib earlier date))]\<rparr> (rules this)\<rparr>)"

definition alpha :: "string option \<Rightarrow> FieldValidator \<Rightarrow> FieldValidator" where
  "alpha msg this = this\<lparr>rules := obj_set ''alpha''
     \<lparr>name = ''alpha'', async = False,
      handle = (\<lambda>now inp fname. Returns (isAlpha (getInput inp fname))),
      rule_message = or_default msg RULE_MESSAGES_alpha,
      attrs = [(''label'', fieldLabel this)]\<rparr> (rules this)\<rparr>"

definition alphaDash :: "string option \<Rightarrow> FieldValidator \<Rightarrow> FieldValidator" where
  "alphaDash msg this = this\<lparr>rules := obj_set ''alphaDash''
     \<lparr>name = ''alphaDash'', async = False,
      handle = (\<lambda>now inp fname. Returns (isAlphaDash (getInput inp fname))),
      rule_message = or_default msg RULE_MESSAGES_alphaDash,
      attrs = [(''label'', fieldLabel this)]\<rparr> (rules this)\<rparr>"

definition alphaNum :: "string option \<Rightarrow> FieldValidator \<Rightarrow> FieldValidator" where
  "alphaNum msg this = this\<lparr>rules := obj_set ''alphaNum''
     \<lparr>name = ''alphaNum'', async = False,
      handle = (\<lambda>now inp fname. Returns (isAlphaNum (getInput inp fname))),
      rule_message = or_default msg RULE_MESSAGES_alphaNum,
      attrs = [(''label'', fieldLabel this)]\<rparr> (rules this)\<rparr>"

definition array :: "string option \<Rightarrow> FieldValidator \<Rightarrow> FieldValidator" where
  "array msg this = this\<lparr>rules := obj_set ''array''
     \<lparr>name = ''array'', async = False,
      handle = (\<lambda>now inp fname. Returns (isArray (getInput inp fname))),
      rule_message = or_default msg RULE_MESSAGES_array,
      attrs = [(''label'', fieldLabel this)]\<rparr> (rules this)\<rparr>"

definition before :: "moment_lib \<Rightarrow> int \<Rightarrow> MomentInput \<Rightarrow> string option \<Rightarrow> FieldValidator \<Rightarrow> FieldValidator" where
  \<comment> \<open>\<open>earlier\<close> is the reading of the clock when the rule is attached\<close>
  "before lib earlier date0 msg this =
     (let date = IsMoment (as_moment lib earlier date0) in
      this\<lparr>rules := obj_set ''before''
       \<lparr>name = ''before'', async = False,
        handle = (\<lambda>now inp fname. Returns (isBefore lib now (getInput inp fname) date)),
        rule_message = or_default msg RULE_MESSAGES_before,
        attrs = [(''label'', fieldLabel this),
                 (''date'', moment_toString lib (as_moment lib earlier date))]\<rparr> (rules this)\<rparr>)"

definition beforeOrEqual :: "moment_lib \<Rightarrow> int \<Rightarrow> MomentInput \<Rightarrow> string option \<Rightarrow> FieldValidator \<Rightarrow> FieldValidator" where
  \<comment> \<open>\<open>earlier\<close> is the reading of the clock when the rule is attached\<close>
  "beforeOrEqual lib earlier date0 msg this =
     (let date = IsMoment (as_moment lib earlier date0) in
      this\<lparr>rules := obj_set ''beforeOrEqual''
       \<lparr>name = ''beforeOrEqual'', async = False,
        handle = (\<lambda>now inp fname. Returns (isBeforeOrEqual lib now (getInput inp fname) date)),
        rule_message = or_default msg RULE_MESSAGES_beforeOrEqual,
        attrs = [(''label'', fieldLabel this),
                 (''date'', moment_toString lib (as_moment lib earlier date))]\<rparr> (rules this)\<rparr>)"

definition addError :: "string \<Rightarrow> string \<Rightarrow> (string \<times> string) list option \<Rightarrow> FieldValidator \<Rightarrow> FieldValidator" where
  "addError ruleName msg a this =
     this\<lparr>errors := errors this @
       [\<lparr>rule = ruleName, message = template msg (case a of None \<Rightarrow> [] | Some kv \<Rightarrow> kv)\<rparr>]\<rparr>"

definition getErrors_field :: "FieldValidator \<Rightarrow> FieldValidationError list" where
  "getErrors_field this = errors this"

definition hasErrors_field :: "FieldValidator \<Rightarrow> bool" where
  "hasErrors_field this = (if length (errors this) \<noteq> 0 then True else False)"

text \<open>
  \<open>check\<close> and \<open>validate\<close> are asynchronous functions that await one thing at a time:
  a call runs its steps in sequence. The model is a call that runs alone; code that runs
  while the call is suspended and writes to the same form is outside it.
\<close>

fun awaited :: "handled \<Rightarrow> exn + bool" where
  \<comment> \<open>\<open>pass = await handle.call(this)\<close>\<close>
  "awaited (Returns b) = Inr b"
| "awaited (Promises p) = p"
| "awaited (Throws e) = Inl e"

fun called :: "handled \<Rightarrow> exn + bool" where
  \<comment> \<open>\<open>pass = handle.call(this)\<close>: a promise that is not awaited is an object, which is
      truthy\<close>
  "called (Returns b) = Inr b"
| "called (Promises p) = Inr True"
| "called (Throws e) = Inl e"

fun check_rules :: "int \<Rightarrow> input \<Rightarrow> (string \<times> ValidationRule) list \<Rightarrow> FieldValidator \<Rightarrow> FieldValidator \<times> (exn + unit)" where
  \<comment> \<open>the loop of \<open>check\<close> over the rules that are left\<close>
  "check_rules now inp [] this = (this, Inr ())"
| "check_rules now inp ((k, r) # rest) this =
     (case (if async r then awaited (handle r now inp (fieldName this))
            else called (handle r now inp (fieldName this))) of
        Inl e \<Rightarrow> (this, Inl e)
      | Inr pass \<Rightarrow>
          check_rules now inp rest
            (if \<not> pass then addError k (rule_message r) (Some (attrs r)) this else this))"

definition check :: "int \<Rightarrow> input \<Rightarrow> FieldValidator \<Rightarrow> FieldValidator \<times> (exn + bool)" where
  \<comment> \<open>the field rule set after the call, and what the call throws or returns\<close>
  "check now inp this =
     (case check_rules now inp (rules this) (this\<lparr>errors := []\<rparr>) of
        (this', Inl e) \<Rightarrow> (this', Inl e)
      | (this', Inr u) \<Rightarrow> (this', Inr (hasErrors_field this')))"


text \<open>
  The rule methods are fluent: \<open>f.required().email()\<close> is a chain of calls on one field
  rule set.
\<close>

datatype rule_call =
    Email "string option"
  | Accepted "string option"
  | After MomentInput "string option"
  | Date "string option"
  | Required "string option"
  | AfterOrEqual MomentInput "string option"
  | Alpha "string option"
  | AlphaDash "string option"
  | AlphaNum "string option"
  | Array "string option"
  | Before MomentInput "string option"
  | BeforeOrEqual MomentInput "string option"

fun call :: "moment_lib \<Rightarrow> int \<Rightarrow> rule_call \<Rightarrow> FieldValidator \<Rightarrow> FieldValidator" where
  "call lib earlier (Email msg) this = email msg this"
| "call lib earlier (Accepted msg) this = accepted msg this"
| "call lib earlier (After d msg) this = after lib earlier d msg this"
| "call lib earlier (Date msg) this = date lib msg this"
| "call lib earlier (Required msg) this = required msg this"
| "call lib earlier (AfterOrEqual d msg) this = afterOrEqual lib earlier d msg this"
| "call lib earlier (Alpha msg) this = alpha msg this"
| "call lib earlier (AlphaDash msg) this = alphaDash msg this"
| "call lib earlier (AlphaNum msg) this = alphaNum msg this"
| "call lib earlier (Array msg) this = array msg this"
| "call lib earlier (Before d msg) this = before lib earlier d msg this"
| "call lib earlier (BeforeOrEqual d msg) this = beforeOrEqual lib earlier d msg this"

fun rule_of :: "rule_call \<Rightarrow> string" where
  \<comment> \<open>the name under which the method stores its rule\<close>
  "rule_of (Email msg) = ''email''"
| "rule_of (Accepted msg) = ''accepted''"
| "rule_of (After d msg) = ''after''"
| "rule_of (Date msg) = ''date''"
| "rule_of (Required msg) = ''required''"
| "rule_of (AfterOrEqual d msg) = ''afterOrEqual''"
| "rule_of (Alpha msg) = ''alpha''"
| "rule_of (AlphaDash msg) = ''alphaDash''"
| "rule_of (AlphaNum msg) = ''alphaNum''"
| "rule_of (Array msg) = ''array''"
| "rule_of (Before d msg) = ''before''"
| "rule_of (BeforeOrEqual d msg) = ''beforeOrEqual''"

fun reads_moment :: "rule_call \<Rightarrow> bool" where
  \<comment> \<open>the predicate of the rule makes a moment of the value of the field\<close>
  "reads_moment (After d msg) = True"
| "reads_moment (Date msg) = True"
| "reads_moment (AfterOrEqual d msg) = True"
| "reads_moment (Before d msg) = True"
| "reads_moment (BeforeOrEqual d msg) = True"
| "reads_moment c = False"

definition chain :: "moment_lib \<Rightarrow> int \<Rightarrow> rule_call list \<Rightarrow> FieldValidator \<Rightarrow> FieldValidator" where
  "chain lib earlier calls this = fold (call lib earlier) calls this"

section \<open>Form validators\<close>

record FormValidator =
  input :: input
  form_fields :: "FieldValidator obj"     \<comment> \<open>\<open>fields\<close>\<close>
  fieldErrors :: "FieldValidationError list obj"

definition new_FormValidator :: "input option \<Rightarrow> FormValidator" where
  "new_FormValidator inp =
     \<lparr>input = (case inp of None \<Rightarrow> (\<lambda>k. None) | Some i \<Rightarrow> i), form_fields = [], fieldErrors = []\<rparr>"

definition createForm :: "input \<Rightarrow> FormValidator" where
  "createForm inp = new_FormValidator (Some inp)"

definition field :: "(string \<Rightarrow> string) \<Rightarrow> string \<Rightarrow> string option \<Rightarrow> FormValidator \<Rightarrow> FieldValidator option \<times> FormValidator" where
  \<comment> \<open>The field rule set that the call returns, and the form after the call. For a name
      that every object inherits, \<open>this.fields[fieldName]\<close> is the inherited member: no
      field rule set is made, and what the call returns is not one (\<open>None\<close>).\<close>
  "field lowerCase fname flabel this =
     (case obj_get (form_fields this) fname of
        Some f \<Rightarrow> (Some f, this)
      | None \<Rightarrow>
          if fname \<in> set object_prototype_names then (None, this)
          else let f = new_FieldValidator lowerCase fname flabel
               in (Some f, this\<lparr>form_fields := obj_set fname f (form_fields this)\<rparr>))"

definition on_field :: "(string \<Rightarrow> string) \<Rightarrow> string \<Rightarrow> string option \<Rightarrow> (FieldValidator \<Rightarrow> FieldValidator) \<Rightarrow> FormValidator \<Rightarrow> FormValidator" where
  \<comment> \<open>\<open>form.field(name, label).rule1().rule2()...\<close>: the rule methods change the field
      rule set that the form holds. Where \<open>field\<close> returns no field rule set the chained
      call fails and the form is as before.\<close>
  "on_field lowerCase fname flabel methods this =
     (case field lowerCase fname flabel this of
        (Some f, this') \<Rightarrow> this'\<lparr>form_fields := obj_set fname (methods f) (form_fields this')\<rparr>
      | (None, this') \<Rightarrow> this')"

fun validate_fields :: "int \<Rightarrow> string list \<Rightarrow> FormValidator \<Rightarrow> bool \<Rightarrow> FormValidator \<times> (exn + bool)" where
  \<comment> \<open>the loop of \<open>validate\<close> over the field names that are left\<close>
  "validate_fields now [] this valid = (this, Inr valid)"
| "validate_fields now (k # ks) this valid =
     (case obj_get (form_fields this) k of
        None \<Rightarrow> (this, Inl (Thrown ''TypeError''))
      | Some f \<Rightarrow>
          (case check now (input this) f of
             (f', Inl e) \<Rightarrow> (this\<lparr>form_fields := obj_set k f' (form_fields this)\<rparr>, Inl e)
           | (f', Inr r) \<Rightarrow>
               if hasErrors_field f'
               then validate_fields now ks
                      (this\<lparr>form_fields := obj_set k f' (form_fields this),
                            fieldErrors := obj_set k (getErrors_field f') (fieldErrors this)\<rparr>)
                      False
               else validate_fields now ks (this\<lparr>form_fields := obj_set k f' (form_fields this)\<rparr>) valid))"

definition validate :: "int \<Rightarrow> FormValidator \<Rightarrow> FormValidator \<times> (exn + bool)" where
  \<comment> \<open>the form after the call, and what the call throws or returns\<close>
  "validate now this = validate_fields now (obj_keys (form_fields this)) (this\<lparr>fieldErrors := []\<rparr>) True"

definition hasErrors :: "FormValidator \<Rightarrow> bool" where
  "hasErrors this = (length (obj_keys (fieldErrors this)) > 0)"

definition getErrors :: "FormValidator \<Rightarrow> FieldValidationError list obj" where
  "getErrors this = fieldErrors this"

definition new_FormValidationError :: "FieldValidationError list obj \<Rightarrow> string option \<Rightarrow> FormValidationError" where
  "new_FormValidationError flds msg =
     \<lparr>error_fields = flds, error_message = or_default msg ''Invalid form input'',
      error_name = ''FormValidationError''\<rparr>"

definition validateAndThrow :: "int \<Rightarrow> FormValidator \<Rightarrow> FormValidator \<times> (raised + unit)" where
  "validateAndThrow now this =
     (case validate now this of
        (this', Inl e) \<Rightarrow> (this', Inl (Passed_on e))
      | (this', Inr v) \<Rightarrow>
          if \<not> v then (this', Inl (Invalid (new_FormValidationError (getErrors this') None)))
          else (this', Inr ()))"

definition getCompiledMessage :: "string option \<Rightarrow> FormValidationError \<Rightarrow> string" where
  \<comment> \<open>the merge token defaults to a newline\<close>
  "getCompiledMessage mergeToken this =
     join (case mergeToken of None \<Rightarrow> [CHR 0x0A] | Some t \<Rightarrow> t)
       (concat (map (\<lambda>p. map message (snd p)) (error_fields this)))"


section \<open>Orders of reference\<close>

fun first_refs_from :: "string list \<Rightarrow> string list \<Rightarrow> string list" where
  "first_refs_from seen [] = seen"
| "first_refs_from seen (x # xs) = first_refs_from (if x \<in> set seen then seen else seen @ [x]) xs"

definition first_refs :: "string list \<Rightarrow> string list" where
  \<comment> \<open>the names of a sequence of references, each at the place of its first reference\<close>
  "first_refs xs = first_refs_from [] xs"

text \<open>A field declaration is \<open>form.field(name, label)\<close> followed by a chain of rule methods.\<close>

type_synonym field_decl = "string \<times> string option \<times> rule_call list"

definition build :: "(string \<Rightarrow> string) \<Rightarrow> moment_lib \<Rightarrow> int \<Rightarrow> field_decl list \<Rightarrow> FormValidator \<Rightarrow> FormValidator" where
  \<comment> \<open>a sequence of declarations on a form, from left to right\<close>
  "build lowerCase lib earlier ds this =
     fold (\<lambda>d. on_field lowerCase (fst d) (fst (snd d)) (chain lib earlier (snd (snd d)))) ds this"

definition key_before :: "string \<Rightarrow> string \<Rightarrow> bool" where
  \<comment> \<open>\<open>k\<close> may stand before \<open>k'\<close> among the keys of an object\<close>
  "key_before k k' =
     (if is_array_index k then \<not> is_array_index k' \<or> index_value k < index_value k'
      else \<not> is_array_index k')"

definition wf_obj :: "'a obj \<Rightarrow> bool" where
  \<comment> \<open>the lists that are objects: no key twice, and the keys in the order of an object\<close>
  "wf_obj ob = (distinct (obj_keys ob) \<and> sorted_wrt key_before (obj_keys ob))"

definition failed :: "int \<Rightarrow> input \<Rightarrow> string \<times> FieldValidator \<Rightarrow> bool" where
  \<comment> \<open>the field reports errors when it is checked\<close>
  "failed now inp p = hasErrors_field (fst (check now inp (snd p)))"

definition failures :: "int \<Rightarrow> input \<Rightarrow> string \<times> FieldValidator \<Rightarrow> string \<times> FieldValidationError list" where
  \<comment> \<open>the entry of the field in the error map\<close>
  "failures now inp p = (fst p, getErrors_field (fst (check now inp (snd p))))"

definition returns :: "int \<Rightarrow> input \<Rightarrow> string \<times> FieldValidator \<Rightarrow> bool" where
  \<comment> \<open>checking the field throws nothing\<close>
  "returns now inp p = (case snd (check now inp (snd p)) of Inl e \<Rightarrow> False | Inr b \<Rightarrow> True)"

definition outcome :: "int \<Rightarrow> input \<Rightarrow> string \<Rightarrow> ValidationRule \<Rightarrow> exn + bool" where
  \<comment> \<open>what \<open>check\<close> gets from the predicate of a rule: \<open>pass\<close>, or what is thrown\<close>
  "outcome now inp fname r =
     (if async r then awaited (handle r now inp fname) else called (handle r now inp fname))"

definition record_of :: "string \<times> ValidationRule \<Rightarrow> FieldValidationError" where
  \<comment> \<open>the failure record of a rule, as \<open>addError\<close> makes it\<close>
  "record_of p = \<lparr>rule = fst p, message = template (rule_message (snd p)) (attrs (snd p))\<rparr>"

section \<open>A pass over the fields, on the list of properties\<close>

text \<open>
  What \<open>validate\<close> does to the object \<open>fields\<close> and to the error map, told on the list
  of the properties of \<open>fields\<close>: the fields that are checked, up to and including the
  first whose check throws; the entries stored for them; and what the pass returns or
  throws. The theorems below show that \<open>validate\<close> computes these.
\<close>

definition checked :: "int \<Rightarrow> input \<Rightarrow> string \<times> FieldValidator \<Rightarrow> string \<times> FieldValidator" where
  \<comment> \<open>the field after its check\<close>
  "checked now inp p = (fst p, fst (check now inp (snd p)))"

fun swept :: "int \<Rightarrow> input \<Rightarrow> (string \<times> FieldValidator) list \<Rightarrow> (string \<times> FieldValidator) list" where
  "swept now inp [] = []"
| "swept now inp (p # ps) = (if returns now inp p then checked now inp p # swept now inp ps else checked now inp p # ps)"

fun collected :: "int \<Rightarrow> input \<Rightarrow> (string \<times> FieldValidator) list \<Rightarrow> FieldValidationError list obj \<Rightarrow> FieldValidationError list obj" where
  "collected now inp [] fe = fe"
| "collected now inp (p # ps) fe =
     (if returns now inp p
      then collected now inp ps (if failed now inp p then obj_set (fst p) (snd (failures now inp p)) fe else fe)
      else fe)"

fun verdict :: "int \<Rightarrow> input \<Rightarrow> (string \<times> FieldValidator) list \<Rightarrow> bool \<Rightarrow> exn + bool" where
  "verdict now inp [] valid = Inr valid"
| "verdict now inp (p # ps) valid =
     (case snd (check now inp (snd p)) of
        Inl e \<Rightarrow> Inl e
      | Inr b \<Rightarrow> verdict now inp ps (if failed now inp p then False else valid))"

definition rule_returns :: "int \<Rightarrow> input \<Rightarrow> string \<Rightarrow> string \<times> ValidationRule \<Rightarrow> bool" where
  \<comment> \<open>the predicate of the rule throws nothing\<close>
  "rule_returns now inp fname p = (case outcome now inp fname (snd p) of Inl e \<Rightarrow> False | Inr b \<Rightarrow> True)"

definition rule_fails :: "int \<Rightarrow> input \<Rightarrow> string \<Rightarrow> string \<times> ValidationRule \<Rightarrow> bool" where
  \<comment> \<open>the rule does not pass\<close>
  "rule_fails now inp fname p = (outcome now inp fname (snd p) = Inr False)"

definition steady :: "int \<Rightarrow> int \<Rightarrow> input \<Rightarrow> string \<times> FieldValidator \<Rightarrow> bool" where
  \<comment> \<open>called when the clock reads \<open>later\<close>, the predicate of every rule of the field does what
      it does when the clock reads \<open>now\<close>\<close>
  "steady now later inp p =
     list_all (\<lambda>q. handle (snd q) later inp (fieldName (snd p)) = handle (snd q) now inp (fieldName (snd p)))
       (rules (snd p))"

definition plain :: "ValidationRule \<Rightarrow> bool" where
  \<comment> \<open>a rule that is not asynchronous and whose predicate returns a boolean on every input,
      whenever it is called\<close>
  "plain r = (\<not> async r \<and> (\<forall>now inp fname. \<exists>b. handle r now inp fname = Returns b))"

section \<open>Example forms\<close>

definition example_moments :: moment_lib where
  \<comment> \<open>an instance of the library's parameters: a number is the moment with that time
      value, an undefined value is the moment of the current time, and nothing else makes
      a valid moment\<close>
  "example_moments =
     \<lparr>moment_of = (\<lambda>now v. case v of Undefined \<Rightarrow> Some now | Num t \<Rightarrow> Some t | _ \<Rightarrow> None),
      moment_toString = (\<lambda>m. case m of None \<Rightarrow> ''Invalid date'' | Some t \<Rightarrow> dec_int t)\<rparr>"

definition scenario_form :: FormValidator where
  \<comment> \<open>the scenario of the specification: \<open>{name: "", email: "bad"}\<close> with
      \<open>field('name').required()\<close> and \<open>field('email').email()\<close>\<close>
  "scenario_form =
     build toLowerCase example_moments 0
       [(''name'', None, [Required None]), (''email'', None, [Email None])]
       (createForm [''name'' \<mapsto> Str [], ''email'' \<mapsto> Str ''bad''])"

definition numbered_form :: FormValidator where
  \<comment> \<open>\<open>field('2').required()\<close>, then \<open>field('1').required()\<close>, on an empty input\<close>
  "numbered_form =
     build toLowerCase example_moments 0
       [(''2'', None, [Required None]), (''1'', None, [Required None])]
       (createForm (\<lambda>k. None))"

definition passing_form :: FormValidator where
  "passing_form =
     build toLowerCase example_moments 0
       [(''name'', None, [Required None, Alpha None]),
        (''terms'', Some ''terms of service'', [Accepted None])]
       (createForm [''name'' \<mapsto> Str ''Ann'', ''terms'' \<mapsto> Bool True])"

definition deadline_form :: FormValidator where
  \<comment> \<open>\<open>createForm({}).field('start').after(100)\<close>: the field has no value\<close>
  "deadline_form =
     build toLowerCase example_moments 0
       [(''start'', None, [After (NotMoment (Num 100)) None])]
       (createForm (\<lambda>k. None))"

definition booking_form :: FormValidator where
  \<comment> \<open>\<open>createForm({start: 120, end: 90}).field('start').required().after(100)\<close>, then
      \<open>field('end').before(80)\<close>\<close>
  "booking_form =
     build toLowerCase example_moments 0
       [(''start'', None, [Required None, After (NotMoment (Num 100)) None]),
        (''end'', None, [Before (NotMoment (Num 80)) None])]
       (createForm [''start'' \<mapsto> Num 120, ''end'' \<mapsto> Num 90])"

definition unique_rule :: ValidationRule where
  \<comment> \<open>an asynchronous rule whose predicate returns a promise that rejects\<close>
  "unique_rule =
     \<lparr>name = ''unique'', async = True,
      handle = (\<lambda>now inp fname. Promises (Inl (Thrown ''store unavailable''))),
      rule_message = ''The ${label} has already been taken.'',
      attrs = [(''label'', ''code'')]\<rparr>"

definition code_field :: FieldValidator where
  \<comment> \<open>the field \<open>code\<close> with the rules \<open>required\<close>, \<open>unique\<close> and \<open>alpha\<close>\<close>
  "code_field =
     \<lparr>rules = rules (required None (new_FieldValidator toLowerCase ''code'' None))
               @ (''unique'', unique_rule)
               # rules (alpha None (new_FieldValidator toLowerCase ''code'' None)),
      errors = [], fieldName = ''code'', fieldLabel = ''code''\<rparr>"

definition rejecting_form :: FormValidator where
  \<comment> \<open>the fields \<open>name\<close>, \<open>code\<close> and \<open>email\<close>, in this order\<close>
  "rejecting_form =
     \<lparr>input = [''name'' \<mapsto> Str [], ''code'' \<mapsto> Str ''x1'', ''email'' \<mapsto> Str ''bad''],
      form_fields =
        [(''name'', required None (new_FieldValidator toLowerCase ''name'' None)),
         (''code'', code_field),
         (''email'', email None (new_FieldValidator toLowerCase ''email'' None))],
      fieldErrors = []\<rparr>"

section \<open>Reading and writing objects\<close>

lemma map_of_replace_same:
  "k \<in> fst ` set ob \<Longrightarrow> map_of (map (\<lambda>p. if fst p = k then (k, v) else p) ob) k = Some v"
  by (induction ob) auto

lemma map_of_replace_other:
  "k' \<noteq> k \<Longrightarrow> map_of (map (\<lambda>p. if fst p = k then (k, v) else p) ob) k' = map_of ob k'"
  by (induction ob) auto

lemma map_of_insert_index_same: "map_of (insert_index k v ob) k = Some v"
  by (induction ob) auto

lemma map_of_insert_index_other:
  "k' \<noteq> k \<Longrightarrow> map_of (insert_index k v ob) k' = map_of ob k'"
  by (induction ob) auto

lemma map_of_snoc_same: "k \<notin> fst ` set ob \<Longrightarrow> map_of (ob @ [(k, v)]) k = Some v"
  by (induction ob) auto

lemma map_of_snoc_other: "k' \<noteq> k \<Longrightarrow> map_of (ob @ [(k, v)]) k' = map_of ob k'"
  by (induction ob) auto

lemma obj_get_set_same: "obj_get (obj_set k v ob) k = Some v"
  by (simp add: obj_get_def obj_set_def obj_keys_def map_of_replace_same
      map_of_insert_index_same map_of_snoc_same del: map_of_append)

lemma obj_get_set_other: "k' \<noteq> k \<Longrightarrow> obj_get (obj_set k v ob) k' = obj_get ob k'"
  by (simp add: obj_get_def obj_set_def map_of_replace_other
      map_of_insert_index_other map_of_snoc_other del: map_of_append)

lemma obj_get_None_iff: "obj_get ob k = None \<longleftrightarrow> k \<notin> set (obj_keys ob)"
  by (simp add: obj_get_def obj_keys_def map_of_eq_None_iff)

lemma obj_keys_set_old: "k \<in> set (obj_keys ob) \<Longrightarrow> obj_keys (obj_set k v ob) = obj_keys ob"
proof -
  have "map fst (map (\<lambda>p. if fst p = k then (k, v) else p) ob) = map fst ob"
    by (induction ob) auto
  then show "k \<in> set (obj_keys ob) \<Longrightarrow> obj_keys (obj_set k v ob) = obj_keys ob"
    by (simp add: obj_keys_def obj_set_def)
qed

lemma single_rule: "\<not> is_array_index k \<Longrightarrow> obj_set k r [] = [(k, r)]"
  by (simp add: obj_set_def obj_keys_def)

section \<open>Matching by derivatives\<close>

text \<open>\<open>test\<close> decides whether the pattern matches the whole string.\<close>

inductive_simps matches_Fail: "matches Fail w"
inductive_simps matches_Eps: "matches Eps w"
inductive_simps matches_Sym: "matches (Sym k) w"
inductive_simps matches_Seq: "matches (Seq a b) w"
inductive_simps matches_Alt: "matches (Alt a b) w"
inductive_simps matches_Star_Cons: "matches (Star a) (c # w)"

lemma nullable_matches: "nullable r \<longleftrightarrow> matches r []"
  by (induction r) (auto simp: matches_Fail matches_Eps matches_Sym matches_Seq matches_Alt intro: m_star0)

lemma matches_seq: "matches (seq a b) w \<longleftrightarrow> matches (Seq a b) w"
  by (cases "(a, b)" rule: seq.cases) (auto simp: matches_Seq matches_Fail matches_Eps)

lemma matches_alt: "matches (alt a b) w \<longleftrightarrow> matches (Alt a b) w"
  by (cases "(a, b)" rule: alt.cases) (auto simp: matches_Alt matches_Fail)

lemma matches_deriv: "matches (deriv c r) w \<longleftrightarrow> matches r (c # w)"
proof (induction r arbitrary: w)
  case Fail
  then show ?case by (simp add: matches_Fail)
next
  case Eps
  then show ?case by (simp add: matches_Fail matches_Eps)
next
  case (Sym k)
  then show ?case by (auto simp: matches_Fail matches_Eps matches_Sym)
next
  case (Seq a b)
  have "matches (Seq a b) (c # w) \<longleftrightarrow>
      (\<exists>u v. w = u @ v \<and> matches a (c # u) \<and> matches b v) \<or> (matches a [] \<and> matches b (c # w))"
  proof
    assume "matches (Seq a b) (c # w)"
    then obtain u v where uv: "c # w = u @ v" "matches a u" "matches b v"
      by (auto simp: matches_Seq)
    show "(\<exists>u v. w = u @ v \<and> matches a (c # u) \<and> matches b v) \<or> (matches a [] \<and> matches b (c # w))"
    proof (cases u)
      case Nil
      then show ?thesis using uv by simp
    next
      case (Cons x u')
      then have "w = u' @ v" "matches a (c # u')" using uv by simp_all
      then show ?thesis using uv(3) by blast
    qed
  next
    assume "(\<exists>u v. w = u @ v \<and> matches a (c # u) \<and> matches b v) \<or> (matches a [] \<and> matches b (c # w))"
    then show "matches (Seq a b) (c # w)"
    proof
      assume "\<exists>u v. w = u @ v \<and> matches a (c # u) \<and> matches b v"
      then obtain u v where "w = u @ v" "matches a (c # u)" "matches b v" by blast
      then show ?thesis using m_seq [of a "c # u" b v] by simp
    next
      assume "matches a [] \<and> matches b (c # w)"
      then show ?thesis using m_seq [of a "[]" b "c # w"] by simp
    qed
  qed
  then show ?case
    using Seq by (auto simp: matches_alt matches_seq matches_Alt matches_Seq nullable_matches)
next
  case (Alt a b)
  then show ?case by (simp add: matches_alt matches_Alt)
next
  case (Star a)
  then show ?case
    by (auto simp: matches_seq matches_Seq matches_Star_Cons)
qed

lemma test_matches: "test r s \<longleftrightarrow> matches r s"
proof -
  have "nullable (fold deriv s r) \<longleftrightarrow> matches r s" for r
    by (induction s arbitrary: r) (simp_all add: nullable_matches matches_deriv)
  then show ?thesis by (simp add: test_def)
qed

section \<open>The predicates\<close>

text \<open>
  A string that \<open>isEmail\<close> accepts starts with a double quote or has a dot as its second
  character.
\<close>

lemma fold_deriv_Fail: "fold deriv w Fail = Fail"
  by (induction w) auto

lemma isEmail_local_part:
  assumes "isEmail (Str (c # d # w))"
  shows "c = dquote \<or> d = CHR ''.''"
proof (rule ccontr)
  assume n: "\<not> (c = dquote \<or> d = CHR ''.'')"
  then have "deriv d (deriv c email_regex) = Fail"
    by (simp add: email_regex_def atext_cooked_def lits_def plus_def)
  then have "\<not> test email_regex (c # d # w)"
    by (simp add: test_def fold_deriv_Fail)
  with assms show False by (simp add: isEmail_def)
qed

text \<open>
  Claim C1, the email predicate. The specification has \<open>isEmail\<close> accept
  \<open>user@example.com\<close>, and the pattern it describes does accept it. The pattern that the
  code compiles does not: it is written in a template literal, where the backslashes of
  the regular expression are consumed as escapes of the literal, so that after the first
  character of the local part it asks for the literal text \<open>.,;:s@"\<close> and a closing
  bracket. The predicate rejects the address.
\<close>

theorem isEmail_rejects_plain_address:
  "isEmail (Str ''user@example.com'') = False
   \<and> test email_pattern_spec ''user@example.com'' = True"
  by code_simp

text \<open>
  What the compiled pattern does accept: a quoted local part is untouched by the lost
  escapes, and the dots of the domain have become wildcards.
\<close>

lemma isEmail_accepts_quoted_local_part:
  "isEmail (Str ([dquote] @ ''x'' @ [dquote] @ ''@example.com'')) = True
   \<and> isEmail (Str ([dquote] @ ''x'' @ [dquote] @ ''@exampleXcom'')) = True
   \<and> test email_pattern_spec ([dquote] @ ''x'' @ [dquote] @ ''@exampleXcom'') = False"
  by code_simp

lemma email_pattern_spec_examples:
  "test email_pattern_spec ''a.b@sub.domain.co'' = True
   \<and> test email_pattern_spec ''not-an-email'' = False
   \<and> isEmail (Str ''a.b@sub.domain.co'') = False
   \<and> isEmail (Str ''not-an-email'') = False"
  by code_simp

lemma not_index_required: "\<not> is_array_index ''required''"
  by (simp add: is_array_index_def is_digit_def)

text \<open>
  Claim C2, the rule \<open>required\<close>. Checking a field that carries only this rule reports an
  error exactly when the value of the field is absent (null or undefined) or its string
  representation has length zero once every whitespace character is removed; every other
  value passes.
\<close>

theorem required_rule:
  "hasErrors_field (fst (check now inp (required msg (new_FieldValidator lc fname flabel))))
     = (isNone (getInput inp fname)
        \<or> length (filter (\<lambda>c. \<not> is_space c) (to_string (getInput inp fname))) = 0)"
  by (simp add: check_def required_def new_FieldValidator_def single_rule not_index_required
      isEmpty_def hasErrors_field_def addError_def Let_def)

theorem required_rule_witness:
  "hasErrors_field (fst (check 0 [''f'' \<mapsto> Str ''''] (required None (new_FieldValidator toLowerCase ''f'' None))))
   \<and> hasErrors_field (fst (check 0 [''f'' \<mapsto> Str ''  ''] (required None (new_FieldValidator toLowerCase ''f'' None))))
   \<and> \<not> hasErrors_field (fst (check 0 [''f'' \<mapsto> Str ''a''] (required None (new_FieldValidator toLowerCase ''f'' None))))
   \<and> hasErrors_field (fst (check 0 Map.empty (required None (new_FieldValidator toLowerCase ''f'' None))))"
  by (simp add: required_rule getInput_def is_space_def)

text \<open>Lower-casing a character gives a small letter for that letter and its capital only.\<close>

lemma char_eq_iff_nat: "(c = d) = ((of_char c :: nat) = of_char d)"
  by auto

lemma lower_char_eq:
  assumes "97 \<le> (of_char d :: nat)" "(of_char d :: nat) \<le> 122"
  shows "toLowerCase_char c = d \<longleftrightarrow> c = d \<or> (of_char c :: nat) = of_char d - 32"
proof -
  have b: "(of_char c :: nat) < 256" by simp
  have e: "\<And>x. (x = d) = ((of_char x :: nat) = of_char d)" by auto
  show ?thesis
    unfolding toLowerCase_char_def e
    using b assms by (auto simp: of_char_of)
qed

lemma lower_y: "toLowerCase_char c = CHR ''y'' \<longleftrightarrow> c = CHR ''y'' \<or> c = CHR ''Y''"
  using lower_char_eq [of "CHR ''y''"] by (simp add: char_eq_iff_nat [of _ "CHR ''Y''"])

lemma lower_e: "toLowerCase_char c = CHR ''e'' \<longleftrightarrow> c = CHR ''e'' \<or> c = CHR ''E''"
  using lower_char_eq [of "CHR ''e''"] by (simp add: char_eq_iff_nat [of _ "CHR ''E''"])

lemma lower_s: "toLowerCase_char c = CHR ''s'' \<longleftrightarrow> c = CHR ''s'' \<or> c = CHR ''S''"
  using lower_char_eq [of "CHR ''s''"] by (simp add: char_eq_iff_nat [of _ "CHR ''S''"])

lemma map_eq_three:
  "map f s = [x1, x2, x3] \<longleftrightarrow> (\<exists>a b c. s = [a, b, c] \<and> f a = x1 \<and> f b = x2 \<and> f c = x3)"
  by (auto simp: map_eq_Cons_conv)

lemma toLowerCase_yes:
  "toLowerCase s = ''yes'' \<longleftrightarrow>
     s \<in> {''yes'', ''yeS'', ''yEs'', ''yES'', ''Yes'', ''YeS'', ''YEs'', ''YES''}"
  unfolding toLowerCase_def map_eq_three lower_y lower_e lower_s
  by auto

text \<open>
  Claim C3, the predicate \<open>isAccepted\<close>. It holds exactly of the strings that spell
  \<open>yes\<close> in some mixture of cases, of the boolean true and of the number 1; in
  particular not of \<open>on\<close> and not of 0.
\<close>

theorem isAccepted_exactly:
  "isAccepted v \<longleftrightarrow>
     v \<in> Str ` {''yes'', ''yeS'', ''yEs'', ''yES'', ''Yes'', ''YeS'', ''YEs'', ''YES''}
         \<union> {Bool True, Num 1}"
  by (cases v) (auto simp: toLowerCase_yes)

theorem isAccepted_exactly_witness:
  "isAccepted (Str ''yes'') \<and> isAccepted (Str ''Yes'') \<and> isAccepted (Bool True)
   \<and> isAccepted (Num 1) \<and> \<not> isAccepted (Str ''on'') \<and> \<not> isAccepted (Num 0)
   \<and> \<not> isAccepted (Str ''1'') \<and> \<not> isAccepted Null"
  unfolding isAccepted_exactly by simp

section \<open>Referring to a field\<close>

text \<open>
  Claim C10, \<open>field\<close> is idempotent. A second call for the same name returns what the
  first returned and leaves the form as the first left it, whatever label it passes; a
  name that has a field rule set gets that one back, and the form is unchanged; the label
  of a field rule set is the one of the first reference: the label given there, or else the
  derivation of the name.
\<close>

theorem field_idempotent:
  "field lc fname l2 (snd (field lc fname l1 this)) = field lc fname l1 this
   \<and> (\<forall>f. obj_get (form_fields this) fname = Some f \<longrightarrow> field lc fname l2 this = (Some f, this))
   \<and> (obj_get (form_fields this) fname = None \<and> fname \<notin> set object_prototype_names \<longrightarrow>
        (\<exists>f. fst (field lc fname l1 this) = Some f \<and> fieldLabel f = or_default l1 (lc fname)
           \<and> fst (field lc fname l2 (snd (field lc fname l1 this))) = Some f))"
  by (auto simp: field_def Let_def obj_get_set_same new_FieldValidator_def split: option.splits)

theorem field_idempotent_witness:
  "obj_get (form_fields (snd (field toLowerCase ''email'' (Some ''E-mail'') (createForm Map.empty)))) ''email''
     = Some (new_FieldValidator toLowerCase ''email'' (Some ''E-mail''))
   \<and> field toLowerCase ''email'' (Some ''Other'')
         (snd (field toLowerCase ''email'' (Some ''E-mail'') (createForm Map.empty)))
       = (Some (new_FieldValidator toLowerCase ''email'' (Some ''E-mail'')),
          snd (field toLowerCase ''email'' (Some ''E-mail'') (createForm Map.empty)))
   \<and> fieldLabel (new_FieldValidator toLowerCase ''email'' (Some ''E-mail'')) = ''E-mail''
   \<and> obj_get (form_fields (createForm Map.empty)) ''name'' = None
   \<and> ''name'' \<notin> set object_prototype_names
   \<and> fst (field toLowerCase ''name'' None (createForm Map.empty))
       = fst (field toLowerCase ''name'' (Some ''Full name'')
               (snd (field toLowerCase ''name'' None (createForm Map.empty))))
   \<and> map_option fieldLabel (fst (field toLowerCase ''name'' None (createForm Map.empty)))
       = Some ''name''"
proof -
  have a: "obj_get (form_fields (snd (field toLowerCase ''email'' (Some ''E-mail'') (createForm Map.empty)))) ''email''
     = Some (new_FieldValidator toLowerCase ''email'' (Some ''E-mail''))"
    by (simp add: field_def createForm_def new_FormValidator_def obj_get_def obj_set_def
        obj_keys_def object_prototype_names_def is_array_index_def is_digit_def Let_def)
  have b: "obj_get (form_fields (createForm Map.empty)) ''name'' = None"
    by (simp add: createForm_def new_FormValidator_def obj_get_def)
  have c: "''name'' \<notin> set object_prototype_names"
    by (simp add: object_prototype_names_def)
  have d: "toLowerCase ''name'' = ''name''"
    by (simp add: toLowerCase_def toLowerCase_char_def)
  show ?thesis
    using a b c
      field_idempotent [of toLowerCase "''email''" "Some ''Other''" "Some ''E-mail''"
        "snd (field toLowerCase ''email'' (Some ''E-mail'') (createForm Map.empty))"]
      field_idempotent [of toLowerCase "''name''" "Some ''Full name''" None "createForm Map.empty"]
    by (auto simp: new_FieldValidator_def or_default_def d)
qed

section \<open>The date rules\<close>

lemma not_index_after: "\<not> is_array_index ''after''"
  by (simp add: is_array_index_def is_digit_def)

lemma not_index_afterOrEqual: "\<not> is_array_index ''afterOrEqual''"
  by (simp add: is_array_index_def is_digit_def)

text \<open>
  Claim C9, the rules \<open>after\<close> and \<open>afterOrEqual\<close>. When the value of the field and the
  bound both make valid moments, a field with the rule \<open>after\<close> passes exactly when its
  moment is strictly later than the bound, and one with \<open>afterOrEqual\<close> exactly when it is
  later or the same. The rule methods turn a bound that is not yet a moment into one when
  the rule is attached: attaching with the bound is attaching with its moment.
\<close>

theorem after_rules:
  assumes "moment_of lib now (getInput inp fname) = Some a" and "as_moment lib earlier bound = Some b"
  shows "hasErrors_field (fst (check now inp (after lib earlier bound msg (new_FieldValidator lc fname flabel))))
           = (\<not> b < a)
     \<and> hasErrors_field (fst (check now inp (afterOrEqual lib earlier bound msg (new_FieldValidator lc fname flabel))))
           = (\<not> b \<le> a)
     \<and> after lib earlier bound msg this = after lib earlier (IsMoment (as_moment lib earlier bound)) msg this
     \<and> afterOrEqual lib earlier bound msg this = afterOrEqual lib earlier (IsMoment (as_moment lib earlier bound)) msg this"
  using assms
  by (auto simp: check_def after_def afterOrEqual_def new_FieldValidator_def single_rule
      not_index_after not_index_afterOrEqual isAfter_def isAfterOrEqual_def
      moment_isSameOrAfter_def hasErrors_field_def addError_def Let_def)

theorem after_rules_witness:
  "moment_of example_moments 7 (getInput [''d'' \<mapsto> Num 5] ''d'') = Some 5
   \<and> as_moment example_moments 0 (NotMoment (Num 5)) = Some 5
   \<and> hasErrors_field (fst (check 7 [''d'' \<mapsto> Num 5]
        (after example_moments 0 (NotMoment (Num 5)) None (new_FieldValidator toLowerCase ''d'' None))))
   \<and> \<not> hasErrors_field (fst (check 7 [''d'' \<mapsto> Num 5]
        (afterOrEqual example_moments 0 (NotMoment (Num 5)) None (new_FieldValidator toLowerCase ''d'' None))))"
proof -
  have a: "moment_of example_moments 7 (getInput [''d'' \<mapsto> Num 5] ''d'') = Some 5"
    by (simp add: getInput_def example_moments_def)
  have b: "as_moment example_moments 0 (NotMoment (Num 5)) = Some 5"
    by (simp add: example_moments_def)
  note r = after_rules [OF a b, of None toLowerCase None "new_FieldValidator toLowerCase ''d'' None"]
  show ?thesis
    using a b conjunct1 [OF r] conjunct1 [OF conjunct2 [OF r]] by simp
qed

section \<open>Checking one field\<close>

text \<open>
  \<open>check\<close> changes nothing of a field rule set but its failure list, which it first
  empties: what it does depends on the rules, the name and the input only.
\<close>

lemma check_rules_frame:
  "check_rules now inp rs this = (this', r) \<Longrightarrow> this' = this\<lparr>errors := errors this'\<rparr>"
proof (induction rs arbitrary: this)
  case Nil
  then show ?case by auto
next
  case (Cons p rs)
  obtain k ru where p: "p = (k, ru)" by (cases p)
  show ?case
  proof (cases "outcome now inp (fieldName this) ru")
    case (Inl e)
    then show ?thesis using Cons.prems by (auto simp: p outcome_def)
  next
    case (Inr pass)
    let ?next = "if \<not> pass then addError k (rule_message ru) (Some (attrs ru)) this else this"
    from Cons.prems Inr have "check_rules now inp rs ?next = (this', r)"
      by (simp add: p outcome_def)
    then have "this' = ?next\<lparr>errors := errors this'\<rparr>" by (rule Cons.IH)
    then show ?thesis by (cases pass) (simp_all add: addError_def)
  qed
qed

lemma check_frame: "fst (check now inp this) = this\<lparr>errors := errors (fst (check now inp this))\<rparr>"
proof -
  obtain this' r where c: "check_rules now inp (rules this) (this\<lparr>errors := []\<rparr>) = (this', r)"
    by (cases "check_rules now inp (rules this) (this\<lparr>errors := []\<rparr>)")
  from check_rules_frame [OF c] have "this' = this\<lparr>errors := errors this'\<rparr>" by simp
  moreover have "fst (check now inp this) = this'"
    using c by (simp add: check_def split: sum.splits)
  ultimately show ?thesis by simp
qed

lemma check_ignores_errors: "check now inp (this\<lparr>errors := x\<rparr>) = check now inp this"
  by (simp add: check_def)

lemma check_idem: "check now inp (fst (check now inp this)) = check now inp this"
  by (subst check_frame) (rule check_ignores_errors)

lemma check_rules_step:
  assumes "outcome now inp (fieldName this) r = Inr b"
  shows "check_rules now inp ((k, r) # rs) this =
           check_rules now inp rs (this\<lparr>errors := errors this @ (if b then [] else [record_of (k, r)])\<rparr>)"
    and "rule_fails now inp (fieldName this) (k, r) = (\<not> b)"
proof -
  have "this\<lparr>errors := errors this @ []\<rparr> = this" by simp
  then show "check_rules now inp ((k, r) # rs) this =
           check_rules now inp rs (this\<lparr>errors := errors this @ (if b then [] else [record_of (k, r)])\<rparr>)"
    using assms by (cases b) (simp_all add: outcome_def addError_def record_of_def)
  show "rule_fails now inp (fieldName this) (k, r) = (\<not> b)"
    using assms by (simp add: rule_fails_def)
qed

lemma check_rules_all_return:
  "list_all (rule_returns now inp (fieldName this)) rs \<Longrightarrow>
   check_rules now inp rs this =
     (this\<lparr>errors := errors this @ map record_of (filter (rule_fails now inp (fieldName this)) rs)\<rparr>, Inr ())"
proof (induction rs arbitrary: this)
  case Nil
  then show ?case by simp
next
  case (Cons p rs)
  obtain k r where p: "p = (k, r)" by (cases p)
  from Cons.prems obtain b where o: "outcome now inp (fieldName this) r = Inr b"
    by (auto simp: p rule_returns_def split: sum.splits)
  let ?next = "this\<lparr>errors := errors this @ (if b then [] else [record_of (k, r)])\<rparr>"
  have "check_rules now inp rs ?next =
     (?next\<lparr>errors := errors ?next @ map record_of (filter (rule_fails now inp (fieldName ?next)) rs)\<rparr>, Inr ())"
    using Cons.prems by (intro Cons.IH) simp
  then show ?case
    unfolding p check_rules_step(1) [OF o] by (simp add: check_rules_step(2) [OF o])
qed

lemma check_rules_throw:
  "list_all (rule_returns now inp (fieldName this)) pre \<Longrightarrow> outcome now inp (fieldName this) r = Inl e \<Longrightarrow>
   check_rules now inp (pre @ (k, r) # post) this =
     (this\<lparr>errors := errors this @ map record_of (filter (rule_fails now inp (fieldName this)) pre)\<rparr>, Inl e)"
proof (induction pre arbitrary: this)
  case Nil
  then show ?case by (simp add: outcome_def [symmetric])
next
  case (Cons p pre)
  obtain k' r' where p: "p = (k', r')" by (cases p)
  from Cons.prems obtain b where o: "outcome now inp (fieldName this) r' = Inr b"
    by (auto simp: p rule_returns_def split: sum.splits)
  let ?next = "this\<lparr>errors := errors this @ (if b then [] else [record_of (k', r')])\<rparr>"
  have "check_rules now inp (pre @ (k, r) # post) ?next =
     (?next\<lparr>errors := errors ?next @ map record_of (filter (rule_fails now inp (fieldName ?next)) pre)\<rparr>, Inl e)"
    using Cons.prems by (intro Cons.IH) simp_all
  then show ?case
    unfolding p append_Cons check_rules_step(1) [OF o] by (simp add: check_rules_step(2) [OF o])
qed

lemma check_all_return:
  "list_all (rule_returns now inp (fieldName this)) (rules this) \<Longrightarrow>
   check now inp this =
     (this\<lparr>errors := map record_of (filter (rule_fails now inp (fieldName this)) (rules this))\<rparr>,
      Inr (filter (rule_fails now inp (fieldName this)) (rules this) \<noteq> []))"
  using check_rules_all_return [of now inp "this\<lparr>errors := []\<rparr>" "rules this"]
  by (simp add: check_def hasErrors_field_def)

lemma check_throw:
  "rules this = pre @ (k, r) # post \<Longrightarrow> list_all (rule_returns now inp (fieldName this)) pre \<Longrightarrow>
   outcome now inp (fieldName this) r = Inl e \<Longrightarrow>
   check now inp this =
     (this\<lparr>errors := map record_of (filter (rule_fails now inp (fieldName this)) pre)\<rparr>, Inl e)"
  using check_rules_throw [of now inp "this\<lparr>errors := []\<rparr>" pre r e k post]
  by (simp add: check_def)

section \<open>Validating a form\<close>

text \<open>On an object, whose keys are distinct, the loop of \<open>validate\<close> is the pass on the list.\<close>

lemma obj_get_mid:
  "k \<notin> fst ` set pre \<Longrightarrow> obj_get (pre @ (k, f) # rest) k = Some f"
  by (induction pre) (auto simp: obj_get_def)

lemma replace_absent:
  "k \<notin> fst ` set xs \<Longrightarrow> map (\<lambda>p. if fst p = k then (k, v) else p) xs = xs"
  by (induction xs) auto

lemma obj_set_mid:
  "distinct (map fst (pre @ (k, f) # rest)) \<Longrightarrow> obj_set k f' (pre @ (k, f) # rest) = pre @ (k, f') # rest"
proof -
  assume d: "distinct (map fst (pre @ (k, f) # rest))"
  from d have "k \<notin> fst ` set pre" "k \<notin> fst ` set rest" by auto
  then show ?thesis
    by (simp add: obj_set_def obj_keys_def replace_absent)
qed

lemma validate_fields_on_list:
  "distinct (map fst (pre @ rest)) \<Longrightarrow> form_fields this = pre @ rest \<Longrightarrow>
   validate_fields now (map fst rest) this valid =
     (this\<lparr>form_fields := pre @ swept now (input this) rest,
           fieldErrors := collected now (input this) rest (fieldErrors this)\<rparr>,
      verdict now (input this) rest valid)"
proof (induction rest arbitrary: pre this valid)
  case Nil
  then show ?case by simp
next
  case (Cons p rest)
  obtain k f where p: "p = (k, f)" by (cases p)
  obtain f' r where c: "check now (input this) f = (f', r)" by (cases "check now (input this) f")
  from Cons.prems have nk: "k \<notin> fst ` set pre" by (auto simp: p)
  have g: "obj_get (form_fields this) k = Some f"
    using Cons.prems(2) nk by (simp add: p obj_get_mid)
  have s: "obj_set k f' (form_fields this) = (pre @ [(k, f')]) @ rest"
    using Cons.prems by (simp add: p obj_set_mid)
  have d: "distinct (map fst ((pre @ [(k, f')]) @ rest))"
    using Cons.prems(1) by (simp add: p)
  show ?case
  proof (cases r)
    case (Inl e)
    then show ?thesis
      using g s c by (simp add: p returns_def checked_def)
  next
    case (Inr b)
    show ?thesis
    proof (cases "hasErrors_field f'")
      case True
      let ?this = "this\<lparr>form_fields := obj_set k f' (form_fields this),
                        fieldErrors := obj_set k (getErrors_field f') (fieldErrors this)\<rparr>"
      have "validate_fields now (map fst rest) ?this False =
        (?this\<lparr>form_fields := (pre @ [(k, f')]) @ swept now (input ?this) rest,
           fieldErrors := collected now (input ?this) rest (fieldErrors ?this)\<rparr>,
         verdict now (input ?this) rest False)"
        by (rule Cons.IH [OF d]) (simp add: s)
      then show ?thesis
        using g c Inr True by (simp add: p returns_def checked_def failed_def failures_def)
    next
      case False
      let ?this = "this\<lparr>form_fields := obj_set k f' (form_fields this)\<rparr>"
      have "validate_fields now (map fst rest) ?this valid =
        (?this\<lparr>form_fields := (pre @ [(k, f')]) @ swept now (input ?this) rest,
           fieldErrors := collected now (input ?this) rest (fieldErrors ?this)\<rparr>,
         verdict now (input ?this) rest valid)"
        by (rule Cons.IH [OF d]) (simp add: s)
      then show ?thesis
        using g c Inr False by (simp add: p returns_def checked_def failed_def failures_def)
    qed
  qed
qed

lemma validate_on_list:
  "distinct (obj_keys (form_fields this)) \<Longrightarrow>
   validate now this =
     (this\<lparr>form_fields := swept now (input this) (form_fields this),
           fieldErrors := collected now (input this) (form_fields this) []\<rparr>,
      verdict now (input this) (form_fields this) True)"
  using validate_fields_on_list [of "[]" "form_fields this" "this\<lparr>fieldErrors := []\<rparr>" now True]
  by (simp add: validate_def obj_keys_def)

lemma checked_idem: "checked now inp (checked now inp p) = checked now inp p"
  by (simp add: checked_def check_idem)

lemma returns_checked: "returns now inp (checked now inp p) = returns now inp p"
  by (simp add: checked_def returns_def check_idem)

lemma failed_checked: "failed now inp (checked now inp p) = failed now inp p"
  by (simp add: checked_def failed_def check_idem)

lemma failures_checked: "failures now inp (checked now inp p) = failures now inp p"
  by (simp add: checked_def failures_def check_idem)

lemma fst_checked: "fst (checked now inp p) = fst p"
  by (simp add: checked_def)

lemma keys_swept: "map fst (swept now inp ps) = map fst ps"
  by (induction ps) (auto simp: fst_checked)

lemma swept_idem: "swept now inp (swept now inp ps) = swept now inp ps"
  by (induction ps) (auto simp: returns_checked checked_idem)

lemma collected_swept: "collected now inp (swept now inp ps) fe = collected now inp ps fe"
  by (induction ps arbitrary: fe) (auto simp: returns_checked failed_checked failures_checked fst_checked)

lemma verdict_swept: "verdict now inp (swept now inp ps) v = verdict now inp ps v"
proof (induction ps arbitrary: v)
  case Nil
  then show ?case by simp
next
  case (Cons p ps)
  have c: "check now inp (snd (checked now inp p)) = check now inp (snd p)"
    by (simp add: checked_def check_idem)
  show ?case
    by (cases "snd (check now inp (snd p))")
       (simp_all add: c returns_def failed_checked Cons.IH)
qed

lemma rules_checked: "rules (snd (checked now inp p)) = rules (snd p)"
  by (subst checked_def, subst check_frame) simp

lemma rules_swept:
  "map (\<lambda>p. (fst p, rules (snd p))) (swept now inp ps) = map (\<lambda>p. (fst p, rules (snd p))) ps"
  by (induction ps) (auto simp: rules_checked fst_checked)

subsection \<open>Keys after a write\<close>

lemma keys_insert_index: "set (map fst (insert_index k v ob)) = insert k (set (map fst ob))"
  by (induction ob) auto

lemma set_keys_obj_set: "set (obj_keys (obj_set k v ob)) = insert k (set (obj_keys ob))"
proof (cases "k \<in> set (obj_keys ob)")
  case True
  then show ?thesis by (auto simp: obj_keys_set_old)
next
  case False
  have "set (map fst (insert_index k v ob)) = insert k (set (map fst ob))"
    by (rule keys_insert_index)
  then show ?thesis
    using False by (simp add: obj_set_def obj_keys_def)
qed

lemma keys_obj_set_new:
  "\<not> is_array_index k \<Longrightarrow>
   obj_keys (obj_set k v ob) = (if k \<in> set (obj_keys ob) then obj_keys ob else obj_keys ob @ [k])"
  by (auto simp: obj_keys_set_old) (simp add: obj_set_def obj_keys_def)

lemma values_insert_index: "snd ` set (insert_index k v ob) = insert v (snd ` set ob)"
  by (induction ob) auto

lemma values_obj_set: "snd ` set (obj_set k v ob) \<subseteq> insert v (snd ` set ob)"
  by (auto simp: obj_set_def values_insert_index split: if_splits)

lemma insert_index_last:
  "\<forall>k'\<in>fst ` set ob. is_array_index k' \<and> index_value k' < index_value k \<Longrightarrow>
   insert_index k v ob = ob @ [(k, v)]"
  by (induction ob) auto

lemma obj_set_last:
  assumes "k \<notin> set (obj_keys ob)" and "\<forall>k'\<in>set (obj_keys ob). key_before k' k"
  shows "obj_set k v ob = ob @ [(k, v)]"
proof (cases "is_array_index k")
  case True
  with assms(2) have "\<forall>k'\<in>fst ` set ob. is_array_index k' \<and> index_value k' < index_value k"
    by (auto simp: key_before_def obj_keys_def split: if_splits)
  then show ?thesis
    using assms(1) True by (simp add: obj_set_def insert_index_last)
next
  case False
  then show ?thesis using assms(1) by (simp add: obj_set_def)
qed

subsection \<open>A pass in which no check throws\<close>

lemma swept_all_return: "list_all (returns now inp) ps \<Longrightarrow> swept now inp ps = map (checked now inp) ps"
  by (induction ps) auto

lemma verdict_all_return:
  "list_all (returns now inp) ps \<Longrightarrow> verdict now inp ps v = Inr (v \<and> \<not> list_ex (failed now inp) ps)"
  by (induction ps arbitrary: v) (auto simp: returns_def split: sum.splits)

lemma collected_all_return:
  "list_all (returns now inp) ps \<Longrightarrow> distinct (obj_keys fe @ map fst ps) \<Longrightarrow>
   sorted_wrt key_before (obj_keys fe @ map fst ps) \<Longrightarrow>
   collected now inp ps fe = fe @ map (failures now inp) (filter (failed now inp) ps)"
proof (induction ps arbitrary: fe)
  case Nil
  then show ?case by simp
next
  case (Cons p ps)
  show ?case
  proof (cases "failed now inp p")
    case True
    have last: "obj_set (fst p) (snd (failures now inp p)) fe = fe @ [failures now inp p]"
    proof -
      have "fst p \<notin> set (obj_keys fe)" using Cons.prems(2) by auto
      moreover have "\<forall>k'\<in>set (obj_keys fe). key_before k' (fst p)"
        using Cons.prems(3) by (auto simp: sorted_wrt_append)
      ultimately have "obj_set (fst p) (snd (failures now inp p)) fe = fe @ [(fst p, snd (failures now inp p))]"
        by (rule obj_set_last)
      then show ?thesis by (simp add: failures_def)
    qed
    have k: "obj_keys (fe @ [failures now inp p]) @ map fst ps = obj_keys fe @ map fst (p # ps)"
      by (simp add: obj_keys_def failures_def)
    have "collected now inp ps (fe @ [failures now inp p])
        = (fe @ [failures now inp p]) @ map (failures now inp) (filter (failed now inp) ps)"
      using Cons.prems by (intro Cons.IH) (simp_all only: k, simp)
    then show ?thesis using True Cons.prems(1) by (simp add: last)
  next
    case False
    have "collected now inp ps fe = fe @ map (failures now inp) (filter (failed now inp) ps)"
      using Cons.prems by (intro Cons.IH) (auto simp: sorted_wrt_append)
    then show ?thesis using False Cons.prems(1) by simp
  qed
qed

lemma validate_all_return:
  assumes "wf_obj (form_fields this)" and "list_all (returns now (input this)) (form_fields this)"
  shows "validate now this =
     (this\<lparr>form_fields := map (checked now (input this)) (form_fields this),
           fieldErrors := map (failures now (input this)) (filter (failed now (input this)) (form_fields this))\<rparr>,
      Inr (\<not> list_ex (failed now (input this)) (form_fields this)))"
proof -
  have d: "distinct (obj_keys (form_fields this))" using assms(1) by (simp add: wf_obj_def)
  have c: "collected now (input this) (form_fields this) []
      = [] @ map (failures now (input this)) (filter (failed now (input this)) (form_fields this))"
    using assms by (intro collected_all_return) (simp_all add: wf_obj_def obj_keys_def)
  show ?thesis
    using assms(2) by (simp add: validate_on_list [OF d] swept_all_return verdict_all_return c)
qed
subsection \<open>The rule methods\<close>

lemma mem_insert_index: "p \<in> set (insert_index k v ob) \<Longrightarrow> p = (k, v) \<or> p \<in> set ob"
  by (induction ob) (auto split: if_splits)

lemma mem_obj_set: "p \<in> set (obj_set k v ob) \<Longrightarrow> p = (k, v) \<or> p \<in> set ob"
  by (auto simp: obj_set_def split: if_splits dest: mem_insert_index)

lemma rule_of_not_index: "\<not> is_array_index (rule_of c)"
  by (cases c) (simp_all add: is_array_index_def is_digit_def)

lemma call_shape:
  "\<exists>r. call lib earlier c this = this\<lparr>rules := obj_set (rule_of c) r (rules this)\<rparr> \<and> plain r"
  by (cases c)
     (auto simp: plain_def email_def accepted_def after_def date_def required_def afterOrEqual_def
        alpha_def alphaDash_def alphaNum_def array_def before_def beforeOrEqual_def Let_def)

lemma first_refs_from_append:
  "first_refs_from seen (xs @ ys) = first_refs_from (first_refs_from seen xs) ys"
  by (induction xs arbitrary: seen) auto

lemma chain_shape:
  "\<exists>rs. chain lib earlier cs this = this\<lparr>rules := rs\<rparr>
      \<and> obj_keys rs = first_refs_from (obj_keys (rules this)) (map rule_of cs)
      \<and> ((\<forall>r\<in>snd ` set (rules this). plain r) \<longrightarrow> (\<forall>r\<in>snd ` set rs. plain r))"
proof (induction cs arbitrary: this)
  case Nil
  have "this = this\<lparr>rules := rules this\<rparr>" by simp
  then show ?case unfolding chain_def by (intro exI [of _ "rules this"]) simp
next
  case (Cons c cs)
  obtain r where c: "call lib earlier c this = this\<lparr>rules := obj_set (rule_of c) r (rules this)\<rparr>" and pr: "plain r"
    using call_shape by blast
  let ?this1 = "this\<lparr>rules := obj_set (rule_of c) r (rules this)\<rparr>"
  obtain rs where ih: "chain lib earlier cs ?this1 = ?this1\<lparr>rules := rs\<rparr>"
      "obj_keys rs = first_refs_from (obj_keys (rules ?this1)) (map rule_of cs)"
      "(\<forall>r\<in>snd ` set (rules ?this1). plain r) \<longrightarrow> (\<forall>r\<in>snd ` set rs. plain r)"
    using Cons.IH [of ?this1] by blast
  have k: "obj_keys (obj_set (rule_of c) r (rules this)) =
      (if rule_of c \<in> set (obj_keys (rules this)) then obj_keys (rules this)
       else obj_keys (rules this) @ [rule_of c])"
    by (simp add: keys_obj_set_new rule_of_not_index)
  have v: "(\<forall>r\<in>snd ` set (rules this). plain r) \<longrightarrow> (\<forall>r\<in>snd ` set (rules ?this1). plain r)"
    using mem_obj_set [of _ "rule_of c" r "rules this"] pr by fastforce
  have st: "chain lib earlier (c # cs) this = chain lib earlier cs ?this1"
    by (simp add: chain_def c)
  have "chain lib earlier (c # cs) this = this\<lparr>rules := rs\<rparr>"
    by (simp add: st ih(1))
  moreover have "obj_keys rs = first_refs_from (obj_keys (rules this)) (map rule_of (c # cs))"
    by (simp add: ih(2) k)
  moreover have "(\<forall>r\<in>snd ` set (rules this). plain r) \<longrightarrow> (\<forall>r\<in>snd ` set rs. plain r)"
    using ih(3) v by blast
  ultimately show ?case by blast
qed

lemma plain_returns:
  "\<forall>r\<in>snd ` set (rules f). plain r \<Longrightarrow> list_all (rule_returns now inp fname) (rules f)"
  unfolding list_all_iff rule_returns_def outcome_def plain_def
proof
  fix p assume a: "\<forall>r\<in>snd ` set (rules f). \<not> async r \<and> (\<forall>now inp fname. \<exists>b. handle r now inp fname = Returns b)"
    and p: "p \<in> set (rules f)"
  then have na: "\<not> async (snd p)" by auto
  from a p obtain b where "handle (snd p) now inp fname = Returns b" by (meson imageI)
  with na show "case if async (snd p) then awaited (handle (snd p) now inp fname)
               else called (handle (snd p) now inp fname) of Inl e \<Rightarrow> False | Inr b \<Rightarrow> True"
    by simp
qed

lemma plain_field_returns:
  "\<forall>r\<in>snd ` set (rules (snd p)). plain r \<Longrightarrow> returns now inp p"
  using check_all_return [OF plain_returns, of "snd p" now inp]
  by (simp add: returns_def)

subsection \<open>Declaring fields\<close>

lemma replace_insert_index:
  "k \<notin> fst ` set ob \<Longrightarrow>
   map (\<lambda>p. if fst p = k then (k, v) else p) (insert_index k u ob) = insert_index k v ob"
  by (induction ob) (auto simp: replace_absent)

lemma obj_set_twice: "obj_set k v (obj_set k u ob) = obj_set k v ob"
proof (cases "k \<in> set (obj_keys ob)")
  case True
  then have "k \<in> set (obj_keys (obj_set k u ob))" by (simp add: set_keys_obj_set)
  moreover have "map (\<lambda>p. if fst p = k then (k, v) else p) (map (\<lambda>p. if fst p = k then (k, u) else p) ob)
      = map (\<lambda>p. if fst p = k then (k, v) else p) ob"
    by (induction ob) auto
  ultimately show ?thesis using True by (simp add: obj_set_def)
next
  case False
  have in': "k \<in> set (obj_keys (obj_set k u ob))" by (simp add: set_keys_obj_set)
  have nk: "k \<notin> fst ` set ob" using False by (simp add: obj_keys_def)
  have "map (\<lambda>p. if fst p = k then (k, v) else p) (obj_set k u ob) = obj_set k v ob"
    using False nk by (simp add: obj_set_def replace_insert_index replace_absent)
  then show ?thesis
    using in' by (subst obj_set_def) simp
qed

lemma on_field_fields:
  "fname \<notin> set object_prototype_names \<Longrightarrow>
   on_field lc fname l m this =
     this\<lparr>form_fields :=
       obj_set fname
         (m (case obj_get (form_fields this) fname of
               None \<Rightarrow> new_FieldValidator lc fname l | Some f \<Rightarrow> f))
         (form_fields this)\<rparr>"
  by (simp add: on_field_def field_def Let_def obj_set_twice split: option.splits)

lemma first_refs_from_set: "set (first_refs_from seen xs) = set seen \<union> set xs"
  by (induction xs arbitrary: seen) auto

lemma first_refs_from_distinct: "distinct seen \<Longrightarrow> distinct (first_refs_from seen xs)"
  by (induction xs arbitrary: seen) auto

lemma sorted_no_index: "\<forall>k\<in>set ks. \<not> is_array_index k \<Longrightarrow> sorted_wrt key_before ks"
  by (induction ks) (auto simp: key_before_def)

lemma build_Cons:
  "build lc lib earlier (d # ds) this =
     build lc lib earlier ds (on_field lc (fst d) (fst (snd d)) (chain lib earlier (snd (snd d))) this)"
  by (simp add: build_def)

lemma build_frame:
  "list_all (\<lambda>d. fst d \<notin> set object_prototype_names) ds \<Longrightarrow>
   input (build lc lib earlier ds this) = input this \<and> fieldErrors (build lc lib earlier ds this) = fieldErrors this"
  by (induction ds arbitrary: this) (simp_all add: build_Cons on_field_fields, simp add: build_def)

lemma build_keys:
  "list_all (\<lambda>d. \<not> is_array_index (fst d) \<and> fst d \<notin> set object_prototype_names) ds \<Longrightarrow>
   obj_keys (form_fields (build lc lib earlier ds this))
     = first_refs_from (obj_keys (form_fields this)) (map fst ds)"
proof (induction ds arbitrary: this)
  case Nil
  then show ?case by (simp add: build_def)
next
  case (Cons d ds)
  then show ?case
    by (simp add: build_Cons on_field_fields keys_obj_set_new)
qed

lemma build_plain:
  "list_all (\<lambda>d. fst d \<notin> set object_prototype_names) ds \<Longrightarrow>
   \<forall>p\<in>set (form_fields this). \<forall>r\<in>snd ` set (rules (snd p)). plain r \<Longrightarrow>
   \<forall>p\<in>set (form_fields (build lc lib earlier ds this)). \<forall>r\<in>snd ` set (rules (snd p)). plain r"
proof (induction ds arbitrary: this)
  case Nil
  then show ?case by (simp add: build_def)
next
  case (Cons d ds)
  let ?f = "case obj_get (form_fields this) (fst d) of
               None \<Rightarrow> new_FieldValidator lc (fst d) (fst (snd d)) | Some f \<Rightarrow> f"
  let ?this1 = "on_field lc (fst d) (fst (snd d)) (chain lib earlier (snd (snd d))) this"
  have f: "\<forall>r\<in>snd ` set (rules ?f). plain r"
  proof (cases "obj_get (form_fields this) (fst d)")
    case None
    then show ?thesis by (simp add: new_FieldValidator_def)
  next
    case (Some f0)
    then have "(fst d, f0) \<in> set (form_fields this)"
      by (simp add: obj_get_def map_of_SomeD)
    then show ?thesis using Cons.prems(2) Some by force
  qed
  obtain rs where c: "chain lib earlier (snd (snd d)) ?f = ?f\<lparr>rules := rs\<rparr>" and p: "\<forall>r\<in>snd ` set rs. plain r"
    using chain_shape [of lib earlier "snd (snd d)" ?f] f by blast
  have s: "form_fields ?this1 = obj_set (fst d) (?f\<lparr>rules := rs\<rparr>) (form_fields this)"
    using Cons.prems(1) by (simp add: on_field_fields c)
  have "\<forall>p\<in>set (form_fields ?this1). \<forall>r\<in>snd ` set (rules (snd p)). plain r"
  proof
    fix q assume "q \<in> set (form_fields ?this1)"
    then have "q = (fst d, ?f\<lparr>rules := rs\<rparr>) \<or> q \<in> set (form_fields this)"
      unfolding s by (rule mem_obj_set)
    then show "\<forall>r\<in>snd ` set (rules (snd q)). plain r"
      using p Cons.prems(2) by auto
  qed
  then show ?case
    using Cons.prems(1) by (simp add: build_Cons Cons.IH)
qed

lemma build_rule_keys:
  "list_all (\<lambda>d. fst d \<notin> set object_prototype_names) ds \<Longrightarrow>
   obj_get (form_fields (build lc lib earlier ds this)) k = Some f \<Longrightarrow>
   obj_keys (rules f) =
     first_refs_from (case obj_get (form_fields this) k of None \<Rightarrow> [] | Some f0 \<Rightarrow> obj_keys (rules f0))
       (map rule_of (concat (map (\<lambda>d. snd (snd d)) (filter (\<lambda>d. fst d = k) ds))))"
proof (induction ds arbitrary: this)
  case Nil
  then show ?case by (simp add: build_def)
next
  case (Cons d ds)
  let ?f = "case obj_get (form_fields this) (fst d) of
               None \<Rightarrow> new_FieldValidator lc (fst d) (fst (snd d)) | Some f \<Rightarrow> f"
  let ?this1 = "on_field lc (fst d) (fst (snd d)) (chain lib earlier (snd (snd d))) this"
  obtain rs where c: "chain lib earlier (snd (snd d)) ?f = ?f\<lparr>rules := rs\<rparr>"
    and ks: "obj_keys rs = first_refs_from (obj_keys (rules ?f)) (map rule_of (snd (snd d)))"
    using chain_shape [of lib earlier "snd (snd d)" ?f] by blast
  have s: "form_fields ?this1 = obj_set (fst d) (?f\<lparr>rules := rs\<rparr>) (form_fields this)"
    using Cons.prems(1) by (simp add: on_field_fields c)
  have kf: "obj_keys (rules ?f) =
      (case obj_get (form_fields this) (fst d) of None \<Rightarrow> [] | Some f0 \<Rightarrow> obj_keys (rules f0))"
    by (simp add: new_FieldValidator_def obj_keys_def split: option.splits)
  have ih: "obj_keys (rules f) =
     first_refs_from (case obj_get (form_fields ?this1) k of None \<Rightarrow> [] | Some f0 \<Rightarrow> obj_keys (rules f0))
       (map rule_of (concat (map (\<lambda>d. snd (snd d)) (filter (\<lambda>d. fst d = k) ds))))"
    using Cons.prems by (intro Cons.IH) (simp_all add: build_Cons)
  show ?case
  proof (cases "fst d = k")
    case True
    have "obj_get (form_fields ?this1) k = Some (?f\<lparr>rules := rs\<rparr>)"
      unfolding s True [symmetric] by (rule obj_get_set_same)
    then show ?thesis
      using ih True ks kf by (simp add: first_refs_from_append)
  next
    case False
    have "obj_get (form_fields ?this1) k = obj_get (form_fields this) k"
      unfolding s using False by (simp add: obj_get_set_other)
    then show ?thesis
      using ih False by simp
  qed
qed

subsection \<open>Array indices are the numerals of their values\<close>

lemma index_value_snoc:
  "index_value (s @ [c]) = 10 * index_value s + ((of_char c :: int) - 48)"
  by (simp add: index_value_def)

lemma digit_value:
  "is_digit c \<Longrightarrow> 0 \<le> (of_char c :: int) - 48 \<and> (of_char c :: int) - 48 < 10
     \<and> char_of (48 + nat ((of_char c :: int) - 48)) = c"
proof -
  assume d: "is_digit c"
  have i: "(of_char c :: int) = int (of_char c :: nat)" by (simp add: of_nat_of_char)
  from d have n: "48 \<le> (of_char c :: nat)" "(of_char c :: nat) \<le> 57" by (simp_all add: is_digit_def)
  then have "48 + nat ((of_char c :: int) - 48) = (of_char c :: nat)" by (simp add: i)
  then show ?thesis using n by (simp add: i)
qed

lemma index_value_nonneg: "list_all is_digit s \<Longrightarrow> 0 \<le> index_value s"
proof (induction s rule: rev_induct)
  case Nil
  then show ?case by (simp add: index_value_def)
next
  case (snoc c s)
  then show ?case using digit_value [of c] by (simp add: index_value_snoc)
qed

lemma index_value_pos:
  "list_all is_digit s \<Longrightarrow> s \<noteq> [] \<Longrightarrow> take 1 s \<noteq> ''0'' \<Longrightarrow> 0 < index_value s"
proof (induction s rule: rev_induct)
  case Nil
  then show ?case by simp
next
  case (snoc c s)
  have dc: "is_digit c" using snoc.prems(1) by simp
  show ?case
  proof (cases "s = []")
    case True
    have "c \<noteq> CHR ''0''" using snoc.prems(3) True by simp
    then have "(of_char c :: nat) \<noteq> 48"
      using char_eq_iff_nat [of c "CHR ''0''"] by simp
    then have "48 < (of_char c :: nat)" using dc by (simp add: is_digit_def)
    then have "48 < int (of_char c :: nat)" by linarith
    then have "48 < (of_char c :: int)" by (simp add: of_nat_of_char)
    moreover have "index_value [c] = (of_char c :: int) - 48" by (simp add: index_value_def)
    ultimately show ?thesis unfolding True by simp
  next
    case False
    have ds: "list_all is_digit s" using snoc.prems(1) by simp
    have lead: "take 1 s \<noteq> ''0''" using snoc.prems(3) False by (cases s) simp_all
    have "0 < index_value s" using ds False lead by (rule snoc.IH)
    then show ?thesis
      unfolding index_value_snoc using digit_value [OF dc] by linarith
  qed
qed

lemma numeral_of_value:
  "list_all is_digit s \<Longrightarrow> s \<noteq> [] \<Longrightarrow> s = ''0'' \<or> take 1 s \<noteq> ''0'' \<Longrightarrow>
   dec_nat (nat (index_value s)) = s"
proof (induction s rule: rev_induct)
  case Nil
  then show ?case by simp
next
  case (snoc c s)
  have dc: "is_digit c" using snoc.prems by simp
  note dv = digit_value [OF dc]
  show ?case
  proof (cases "s = []")
    case True
    have iv: "index_value [c] = (of_char c :: int) - 48" by (simp add: index_value_def)
    have dd: "nat ((of_char c :: int) - 48) < 10" using dv by linarith
    have "dec_nat (nat ((of_char c :: int) - 48)) = [char_of (48 + nat ((of_char c :: int) - 48))]"
      using dd by (subst dec_nat.simps) simp
    then show ?thesis using True dv by (simp add: iv)
  next
    case False
    have ds: "list_all is_digit s" using snoc.prems by simp
    have lead: "take 1 s \<noteq> ''0''" using snoc.prems(3) False by (cases s) auto
    have pos: "0 < index_value s" using ds False lead by (rule index_value_pos)
    have ih: "dec_nat (nat (index_value s)) = s" using ds False lead by (intro snoc.IH) simp_all
    define d where "d = nat ((of_char c :: int) - 48)"
    define n where "n = nat (index_value s)"
    have dd: "d < 10" unfolding d_def using dv by linarith
    have np: "0 < n" unfolding n_def using pos by simp
    have cd: "char_of (48 + d) = c" unfolding d_def using dv by blast
    have v: "nat (index_value (s @ [c])) = 10 * n + d"
      unfolding n_def d_def index_value_snoc using pos dv by linarith
    have step: "dec_nat (10 * n + d) = dec_nat ((10 * n + d) div 10) @ [char_of (48 + (10 * n + d) mod 10)]"
      using np by (subst dec_nat.simps) simp
    have q: "(10 * n + d) div 10 = n" using dd by simp
    have r: "(10 * n + d) mod 10 = d" using dd by simp
    have "dec_nat (10 * n + d) = dec_nat n @ [c]"
      unfolding step q r cd by (rule refl)
    then show ?thesis unfolding v using ih by (simp add: n_def)
  qed
qed

lemma array_index_inj:
  assumes "is_array_index s" and "is_array_index t" and "index_value s = index_value t"
  shows "s = t"
proof -
  have "dec_nat (nat (index_value s)) = s"
    using assms(1) unfolding is_array_index_def by (intro numeral_of_value) blast+
  moreover have "dec_nat (nat (index_value t)) = t"
    using assms(2) unfolding is_array_index_def by (intro numeral_of_value) blast+
  ultimately show ?thesis using assms(3) by metis
qed

subsection \<open>Writing to an object gives an object\<close>

lemma key_before_no_index: "\<not> is_array_index k' \<Longrightarrow> key_before k k'"
  by (simp add: key_before_def)

lemma keys_insert_index_image: "fst ` set (insert_index k v ob) = insert k (fst ` set ob)"
  using keys_insert_index [of k v ob] by simp

lemma sorted_insert_index:
  assumes "is_array_index k" and "k \<notin> fst ` set ob" and "sorted_wrt key_before (map fst ob)"
  shows "sorted_wrt key_before (map fst (insert_index k v ob))"
  using assms(2,3)
proof (induction ob)
  case Nil
  then show ?case by simp
next
  case (Cons p ob)
  show ?case
  proof (cases "is_array_index (fst p) \<and> index_value (fst p) < index_value k")
    case True
    then have "key_before (fst p) k" by (simp add: key_before_def)
    moreover have "sorted_wrt key_before (map fst (insert_index k v ob))"
      using Cons by simp
    ultimately show ?thesis
      using True Cons.prems(2) by (simp add: keys_insert_index_image)
  next
    case False
    have "key_before k x" if x: "x \<in> set (map fst (p # ob))" for x
    proof (cases "is_array_index x")
      case nx: False
      then show ?thesis by (rule key_before_no_index)
    next
      case ix: True
      have ip: "is_array_index (fst p)"
      proof (cases "x = fst p")
        case True
        then show ?thesis using ix by simp
      next
        case False
        then have "x \<in> set (map fst ob)" using x by simp
        then have "key_before (fst p) x" using Cons.prems(2) by auto
        then show ?thesis using ix by (auto simp: key_before_def split: if_splits)
      qed
      then have le: "index_value k \<le> index_value (fst p)" using False by simp
      have "k \<noteq> fst p" using Cons.prems(1) by auto
      then have "index_value k \<noteq> index_value (fst p)"
        using array_index_inj [OF assms(1) ip] by blast
      then have lt: "index_value k < index_value (fst p)" using le by simp
      have "index_value (fst p) \<le> index_value x"
      proof (cases "x = fst p")
        case True
        then show ?thesis by simp
      next
        case False
        then have "x \<in> set (map fst ob)" using x by simp
        then have "key_before (fst p) x" using Cons.prems(2) by auto
        then show ?thesis using ix ip by (simp add: key_before_def)
      qed
      then show ?thesis using lt assms(1) by (simp add: key_before_def)
    qed
    then have all: "\<forall>x\<in>set (map fst (p # ob)). key_before k x" by blast
    have e: "insert_index k v (p # ob) = (k, v) # p # ob" using False by auto
    show ?thesis unfolding e using all Cons.prems(2) by simp
  qed
qed

lemma wf_obj_set: "wf_obj ob \<Longrightarrow> wf_obj (obj_set k v ob)"
proof (cases "k \<in> set (obj_keys ob)")
  case True
  then show "wf_obj ob \<Longrightarrow> wf_obj (obj_set k v ob)"
    by (simp add: wf_obj_def obj_keys_set_old)
next
  case False
  assume w: "wf_obj ob"
  have nk: "k \<notin> fst ` set ob" using False by (simp add: obj_keys_def)
  show "wf_obj (obj_set k v ob)"
  proof (cases "is_array_index k")
    case True
    have s: "sorted_wrt key_before (map fst (insert_index k v ob))"
      using True nk w by (intro sorted_insert_index) (simp_all add: wf_obj_def obj_keys_def)
    have "distinct (map fst (insert_index k v ob))"
      using nk w unfolding wf_obj_def obj_keys_def
    proof (induction ob)
      case Nil
      then show ?case by simp
    next
      case (Cons p ob)
      then show ?case by (auto simp: keys_insert_index_image)
    qed
    then show ?thesis using s False True by (simp add: wf_obj_def obj_set_def obj_keys_def)
  next
    case nx: False
    then show ?thesis
      using w False nk
      by (auto simp: wf_obj_def obj_set_def obj_keys_def sorted_wrt_append key_before_no_index)
  qed
qed

lemma others_insert_index:
  "is_array_index k \<Longrightarrow>
   filter (\<lambda>x. \<not> is_array_index x) (map fst (insert_index k v ob))
     = filter (\<lambda>x. \<not> is_array_index x) (map fst ob)"
  by (induction ob) auto

lemma others_obj_set:
  "filter (\<lambda>x. \<not> is_array_index x) (obj_keys (obj_set k v ob)) =
     (if is_array_index k \<or> k \<in> set (obj_keys ob) then filter (\<lambda>x. \<not> is_array_index x) (obj_keys ob)
      else filter (\<lambda>x. \<not> is_array_index x) (obj_keys ob) @ [k])"
proof (cases "k \<in> set (obj_keys ob)")
  case True
  then show ?thesis by (simp add: obj_keys_set_old)
next
  case False
  then show ?thesis
    by (simp add: obj_set_def obj_keys_def others_insert_index)
qed

subsection \<open>The fields of a form that is declared\<close>

lemma first_refs_from_filter:
  "first_refs_from (filter P seen) (filter P xs) = filter P (first_refs_from seen xs)"
proof (induction xs arbitrary: seen)
  case Nil
  then show ?case by simp
next
  case (Cons a xs)
  show ?case
  proof (cases "a \<in> set seen")
    case True
    then show ?thesis using Cons.IH [of seen] by simp
  next
    case False
    then show ?thesis using Cons.IH [of "seen @ [a]"] by (cases "P a") simp_all
  qed
qed

lemma build_object:
  assumes "list_all (\<lambda>d. fst d \<notin> set object_prototype_names) ds"
  shows "wf_obj (form_fields this) \<Longrightarrow> wf_obj (form_fields (build lc lib earlier ds this))"
    and "set (obj_keys (form_fields (build lc lib earlier ds this)))
           = set (obj_keys (form_fields this)) \<union> fst ` set ds"
    and "filter (\<lambda>x. \<not> is_array_index x) (obj_keys (form_fields (build lc lib earlier ds this)))
           = filter (\<lambda>x. \<not> is_array_index x)
               (first_refs_from (obj_keys (form_fields this)) (map fst ds))"
proof -
  show "wf_obj (form_fields this) \<Longrightarrow> wf_obj (form_fields (build lc lib earlier ds this))"
    using assms
    by (induction ds arbitrary: this) (simp_all add: build_Cons on_field_fields wf_obj_set, simp add: build_def)
  show "set (obj_keys (form_fields (build lc lib earlier ds this)))
           = set (obj_keys (form_fields this)) \<union> fst ` set ds"
    using assms
  proof (induction ds arbitrary: this)
    case Nil
    then show ?case by (simp add: build_def)
  next
    case (Cons d ds)
    then show ?case by (auto simp: build_Cons on_field_fields set_keys_obj_set)
  qed
  show "filter (\<lambda>x. \<not> is_array_index x) (obj_keys (form_fields (build lc lib earlier ds this)))
           = filter (\<lambda>x. \<not> is_array_index x)
               (first_refs_from (obj_keys (form_fields this)) (map fst ds))"
    using assms
  proof (induction ds arbitrary: this)
    case Nil
    then show ?case by (simp add: build_def)
  next
    case (Cons d ds)
    let ?this1 = "on_field lc (fst d) (fst (snd d)) (chain lib earlier (snd (snd d))) this"
    let ?P = "\<lambda>x. \<not> is_array_index x"
    have ih: "filter ?P (obj_keys (form_fields (build lc lib earlier ds ?this1)))
           = filter ?P (first_refs_from (obj_keys (form_fields ?this1)) (map fst ds))"
      using Cons.prems by (intro Cons.IH) simp
    have k: "filter ?P (obj_keys (form_fields ?this1))
        = filter ?P (if fst d \<in> set (obj_keys (form_fields this)) then obj_keys (form_fields this)
                     else obj_keys (form_fields this) @ [fst d])"
      using Cons.prems by (simp add: on_field_fields others_obj_set)
    have "filter ?P (first_refs_from (obj_keys (form_fields ?this1)) (map fst ds))
        = first_refs_from (filter ?P (obj_keys (form_fields ?this1))) (filter ?P (map fst ds))"
      by (simp add: first_refs_from_filter)
    also have "\<dots> = first_refs_from
          (filter ?P (if fst d \<in> set (obj_keys (form_fields this)) then obj_keys (form_fields this)
                     else obj_keys (form_fields this) @ [fst d])) (filter ?P (map fst ds))"
      by (simp only: k)
    also have "\<dots> = filter ?P (first_refs_from
          (if fst d \<in> set (obj_keys (form_fields this)) then obj_keys (form_fields this)
                     else obj_keys (form_fields this) @ [fst d]) (map fst ds))"
      by (simp add: first_refs_from_filter)
    finally show ?case
      using ih by (simp add: build_Cons)
  qed
qed

lemma declared_form:
  assumes "list_all (\<lambda>d. fst d \<notin> set object_prototype_names) ds"
  shows "wf_obj (form_fields (build lc lib earlier ds (createForm inp)))"
    and "list_all (returns now i) (form_fields (build lc lib earlier ds (createForm inp)))"
    and "input (build lc lib earlier ds (createForm inp)) = inp"
    and "set (obj_keys (form_fields (build lc lib earlier ds (createForm inp)))) = fst ` set ds"
    and "filter (\<lambda>x. \<not> is_array_index x) (obj_keys (form_fields (build lc lib earlier ds (createForm inp))))
           = first_refs (filter (\<lambda>x. \<not> is_array_index x) (map fst ds))"
proof -
  have e: "form_fields (createForm inp) = []"
    by (simp add: createForm_def new_FormValidator_def)
  show "wf_obj (form_fields (build lc lib earlier ds (createForm inp)))"
    by (rule build_object(1) [OF assms]) (simp add: e wf_obj_def obj_keys_def)
  have "\<forall>p\<in>set (form_fields (build lc lib earlier ds (createForm inp))). \<forall>r\<in>snd ` set (rules (snd p)). plain r"
    by (rule build_plain [OF assms]) (simp add: e)
  then show "list_all (returns now i) (form_fields (build lc lib earlier ds (createForm inp)))"
    by (simp add: list_all_iff plain_field_returns)
  show "input (build lc lib earlier ds (createForm inp)) = inp"
    using build_frame [OF assms, of lc lib earlier "createForm inp"]
    by (simp add: createForm_def new_FormValidator_def)
  show "set (obj_keys (form_fields (build lc lib earlier ds (createForm inp)))) = fst ` set ds"
    using build_object(2) [OF assms, of lc lib earlier "createForm inp"] by (simp add: e obj_keys_def)
  show "filter (\<lambda>x. \<not> is_array_index x) (obj_keys (form_fields (build lc lib earlier ds (createForm inp))))
           = first_refs (filter (\<lambda>x. \<not> is_array_index x) (map fst ds))"
    using build_object(3) [OF assms, of lc lib earlier "createForm inp"]
      first_refs_from_filter [of "\<lambda>x. \<not> is_array_index x" "[]" "map fst ds"]
    by (simp add: e obj_keys_def first_refs_def)
qed

lemma declared_no_index:
  assumes "list_all (\<lambda>d. fst d \<notin> set object_prototype_names) ds"
    and "list_all (\<lambda>d. \<not> is_array_index (fst d)) ds"
  shows "obj_keys (form_fields (build lc lib earlier ds (createForm inp))) = first_refs (map fst ds)"
proof -
  have a: "filter (\<lambda>x. \<not> is_array_index x) (map fst ds) = map fst ds"
    using assms(2) by (simp add: list_all_iff)
  have "\<forall>x\<in>set (obj_keys (form_fields (build lc lib earlier ds (createForm inp)))). \<not> is_array_index x"
    unfolding declared_form(4) [OF assms(1)] using assms(2) by (auto simp: list_all_iff)
  then have "filter (\<lambda>x. \<not> is_array_index x) (obj_keys (form_fields (build lc lib earlier ds (createForm inp))))
      = obj_keys (form_fields (build lc lib earlier ds (createForm inp)))"
    by simp
  then show ?thesis
    using declared_form(5) [OF assms(1), of lc lib earlier inp] by (simp add: a)
qed

subsection \<open>A pass in which a check throws\<close>

lemma swept_throw:
  "list_all (returns now inp) pre \<Longrightarrow> \<not> returns now inp p \<Longrightarrow>
   swept now inp (pre @ p # post) = map (checked now inp) pre @ checked now inp p # post"
  by (induction pre) auto

lemma collected_throw:
  "list_all (returns now inp) pre \<Longrightarrow> \<not> returns now inp p \<Longrightarrow>
   collected now inp (pre @ p # post) fe = collected now inp pre fe"
  by (induction pre arbitrary: fe) auto

lemma verdict_throw:
  "list_all (returns now inp) pre \<Longrightarrow> snd (check now inp (snd p)) = Inl e \<Longrightarrow>
   verdict now inp (pre @ p # post) v = Inl e"
  by (induction pre arbitrary: v) (auto simp: returns_def split: sum.splits)

lemma keys_collected:
  "set (obj_keys (collected now inp ps fe)) \<subseteq> set (obj_keys fe) \<union> fst ` set ps"
proof (induction ps arbitrary: fe)
  case Nil
  then show ?case by simp
next
  case (Cons p ps)
  show ?case
    using Cons.IH [of fe] Cons.IH [of "obj_set (fst p) (snd (failures now inp p)) fe"]
    by (auto simp: set_keys_obj_set)
qed

text \<open>
  Claim C4, what \<open>validate\<close> does. The error map that the call finds is dropped. When no
  check throws, every field is checked, in the order of the keys of \<open>fields\<close>; the error
  map holds, in that order, the failure records of exactly the fields that report errors,
  each under the name of its field; and the call returns true exactly when no field
  reports errors. The object \<open>fields\<close> of a form that has been declared has the declared
  names as its keys: first those that are array indices, in ascending order of their
  values, and then the others in the order of their first reference; the built-in rules
  never throw.
\<close>

theorem validate_pass:
  assumes "wf_obj (form_fields this)" and "list_all (returns now (input this)) (form_fields this)"
  shows "validate now (this\<lparr>fieldErrors := stale\<rparr>) =
     (this\<lparr>form_fields := map (checked now (input this)) (form_fields this),
           fieldErrors := map (failures now (input this)) (filter (failed now (input this)) (form_fields this))\<rparr>,
      Inr (\<not> list_ex (failed now (input this)) (form_fields this)))
   \<and> (list_all (\<lambda>d. fst d \<notin> set object_prototype_names) ds \<longrightarrow>
        wf_obj (form_fields (build lc lib earlier ds (createForm inp)))
        \<and> list_all (returns now (input (build lc lib earlier ds (createForm inp))))
              (form_fields (build lc lib earlier ds (createForm inp)))
        \<and> set (obj_keys (form_fields (build lc lib earlier ds (createForm inp)))) = fst ` set ds
        \<and> filter (\<lambda>x. \<not> is_array_index x) (obj_keys (form_fields (build lc lib earlier ds (createForm inp))))
            = first_refs (filter (\<lambda>x. \<not> is_array_index x) (map fst ds)))"
proof
  have "wf_obj (form_fields (this\<lparr>fieldErrors := stale\<rparr>))"
    and "list_all (returns now (input (this\<lparr>fieldErrors := stale\<rparr>))) (form_fields (this\<lparr>fieldErrors := stale\<rparr>))"
    using assms by simp_all
  from validate_all_return [OF this]
  show "validate now (this\<lparr>fieldErrors := stale\<rparr>) =
     (this\<lparr>form_fields := map (checked now (input this)) (form_fields this),
           fieldErrors := map (failures now (input this)) (filter (failed now (input this)) (form_fields this))\<rparr>,
      Inr (\<not> list_ex (failed now (input this)) (form_fields this)))"
    by simp
  show "list_all (\<lambda>d. fst d \<notin> set object_prototype_names) ds \<longrightarrow>
        wf_obj (form_fields (build lc lib earlier ds (createForm inp)))
        \<and> list_all (returns now (input (build lc lib earlier ds (createForm inp))))
              (form_fields (build lc lib earlier ds (createForm inp)))
        \<and> set (obj_keys (form_fields (build lc lib earlier ds (createForm inp)))) = fst ` set ds
        \<and> filter (\<lambda>x. \<not> is_array_index x) (obj_keys (form_fields (build lc lib earlier ds (createForm inp))))
            = first_refs (filter (\<lambda>x. \<not> is_array_index x) (map fst ds))"
    using declared_form [where ds=ds and lc=lc and lib=lib and earlier=earlier and inp=inp] by blast
qed

theorem validate_pass_witness:
  "wf_obj (form_fields scenario_form)
   \<and> list_all (returns 0 (input scenario_form)) (form_fields scenario_form)
   \<and> validate 0 (scenario_form\<lparr>fieldErrors := [(''age'', [])]\<rparr>) =
     (scenario_form\<lparr>form_fields := map (checked 0 (input scenario_form)) (form_fields scenario_form),
           fieldErrors := map (failures 0 (input scenario_form))
              (filter (failed 0 (input scenario_form)) (form_fields scenario_form))\<rparr>,
      Inr (\<not> list_ex (failed 0 (input scenario_form)) (form_fields scenario_form)))
   \<and> snd (validate 0 (scenario_form\<lparr>fieldErrors := [(''age'', [])]\<rparr>)) = Inr False
   \<and> getErrors (fst (validate 0 (scenario_form\<lparr>fieldErrors := [(''age'', [])]\<rparr>))) =
       [(''name'', [\<lparr>rule = ''required'', message = ''The name field is required.''\<rparr>]),
        (''email'', [\<lparr>rule = ''email'', message = ''The email must be a valid email address.''\<rparr>])]
   \<and> list_all (\<lambda>d. fst d \<notin> set object_prototype_names)
        ([(''b'', None, [Required None]), (''10'', None, [Required None]), (''a'', None, []),
         (''9'', None, [Alpha None]), (''b'', None, [Email None])] :: field_decl list)
   \<and> obj_keys (form_fields (build toLowerCase example_moments 0
        [(''b'', None, [Required None]), (''10'', None, [Required None]), (''a'', None, []),
         (''9'', None, [Alpha None]), (''b'', None, [Email None])] (createForm (\<lambda>k. None))))
       = [''9'', ''10'', ''b'', ''a'']
   \<and> filter (\<lambda>x. \<not> is_array_index x) (obj_keys (form_fields (build toLowerCase example_moments 0
        [(''b'', None, [Required None]), (''10'', None, [Required None]), (''a'', None, []),
         (''9'', None, [Alpha None]), (''b'', None, [Email None])] (createForm (\<lambda>k. None)))))
       = first_refs (filter (\<lambda>x. \<not> is_array_index x)
           (map fst ([(''b'', None, [Required None]), (''10'', None, [Required None]), (''a'', None, []),
         (''9'', None, [Alpha None]), (''b'', None, [Email None])] :: field_decl list)))"
proof -
  have a: "wf_obj (form_fields scenario_form)" by code_simp
  have b: "list_all (returns 0 (input scenario_form)) (form_fields scenario_form)" by code_simp
  have c: "snd (validate 0 (scenario_form\<lparr>fieldErrors := [(''age'', [])]\<rparr>)) = Inr False" by code_simp
  have d: "getErrors (fst (validate 0 (scenario_form\<lparr>fieldErrors := [(''age'', [])]\<rparr>))) =
       [(''name'', [\<lparr>rule = ''required'', message = ''The name field is required.''\<rparr>]),
        (''email'', [\<lparr>rule = ''email'', message = ''The email must be a valid email address.''\<rparr>])]"
    by code_simp
  have e: "list_all (\<lambda>d. fst d \<notin> set object_prototype_names)
        ([(''b'', None, [Required None]), (''10'', None, [Required None]), (''a'', None, []),
         (''9'', None, [Alpha None]), (''b'', None, [Email None])] :: field_decl list)"
    by code_simp
  have f: "obj_keys (form_fields (build toLowerCase example_moments 0
        [(''b'', None, [Required None]), (''10'', None, [Required None]), (''a'', None, []),
         (''9'', None, [Alpha None]), (''b'', None, [Email None])] (createForm (\<lambda>k. None))))
       = [''9'', ''10'', ''b'', ''a'']"
    by code_simp
  note t = validate_pass [OF a b, where earlier=0 and stale="[(''age'', [])]" and lc=toLowerCase
      and lib=example_moments and inp="\<lambda>k. None"
      and ds="[(''b'', None, [Required None]), (''10'', None, [Required None]), (''a'', None, []),
         (''9'', None, [Alpha None]), (''b'', None, [Email None])]"]
  note t1 = conjunct1 [OF t]
  note t2 = mp [OF conjunct2 [OF t] e]
  note g = conjunct2 [OF conjunct2 [OF conjunct2 [OF t2]]]
  show ?thesis
    by (intro conjI a b t1 c d e f g)
qed

theorem validate_order_counterexample:
  "obj_keys (getErrors (fst (validate 0 numbered_form))) = [''1'', ''2'']
   \<and> first_refs [''2'', ''1''] = [''2'', ''1'']
   \<and> obj_keys (getErrors (fst (validate 0 numbered_form))) \<noteq> first_refs [''2'', ''1'']"
  by code_simp

text \<open>
  Claim C6, the order of the errors. The error map of a form that has been declared lists
  the fields that report errors in the order of the keys of \<open>fields\<close>: first the names
  that are array indices, in ascending order of their values, then the other names in the
  order in which they were first referenced. The failure records of a field are those of
  its failing rules in the order of the keys of \<open>rules\<close>, which is the order in which the
  rules were first attached. \<open>getCompiledMessage\<close> joins the messages in the order of the
  map that the error carries, with the merge token, a newline by default, between them.
\<close>

theorem error_order:
  assumes "list_all (\<lambda>d. fst d \<notin> set object_prototype_names) ds"
  shows "getErrors (fst (validate now (build lc lib earlier ds (createForm inp))))
           = map (failures now inp) (filter (failed now inp) (form_fields (build lc lib earlier ds (createForm inp))))
     \<and> wf_obj (form_fields (build lc lib earlier ds (createForm inp)))
     \<and> filter (\<lambda>x. \<not> is_array_index x) (obj_keys (form_fields (build lc lib earlier ds (createForm inp))))
          = first_refs (filter (\<lambda>x. \<not> is_array_index x) (map fst ds))
     \<and> (\<forall>p\<in>set (form_fields (build lc lib earlier ds (createForm inp))).
           snd (failures now inp p)
             = map record_of (filter (rule_fails now inp (fieldName (snd p))) (rules (snd p)))
           \<and> obj_keys (rules (snd p))
             = first_refs (map rule_of (concat (map (\<lambda>d. snd (snd d)) (filter (\<lambda>d. fst d = fst p) ds)))))
     \<and> getCompiledMessage tok (new_FormValidationError flds msg)
           = join (case tok of None \<Rightarrow> [CHR 0x0A] | Some t \<Rightarrow> t)
               (concat (map (\<lambda>p. map message (snd p)) flds))"
proof -
  let ?form = "build lc lib earlier ds (createForm inp)"
  note n = assms
  note b = declared_form [OF assms, where lc=lc and lib=lib and earlier=earlier and inp=inp]
  have i: "input ?form = inp" by (rule b(3))
  have "validate now ?form =
     (?form\<lparr>form_fields := map (checked now (input ?form)) (form_fields ?form),
           fieldErrors := map (failures now (input ?form)) (filter (failed now (input ?form)) (form_fields ?form))\<rparr>,
      Inr (\<not> list_ex (failed now (input ?form)) (form_fields ?form)))"
    using b(1) b(2) [where i="input ?form"] by (rule validate_all_return)
  then have 1: "getErrors (fst (validate now ?form))
           = map (failures now inp) (filter (failed now inp) (form_fields ?form))"
    by (simp add: getErrors_def i)
  have pl: "\<forall>p\<in>set (form_fields ?form). \<forall>r\<in>snd ` set (rules (snd p)). plain r"
    by (rule build_plain [OF n]) (simp add: createForm_def new_FormValidator_def)
  have 3: "\<forall>p\<in>set (form_fields ?form).
           snd (failures now inp p)
             = map record_of (filter (rule_fails now inp (fieldName (snd p))) (rules (snd p)))
           \<and> obj_keys (rules (snd p))
             = first_refs (map rule_of (concat (map (\<lambda>d. snd (snd d)) (filter (\<lambda>d. fst d = fst p) ds))))"
  proof
    fix p assume p: "p \<in> set (form_fields ?form)"
    then have "\<forall>r\<in>snd ` set (rules (snd p)). plain r" using pl by blast
    then have "list_all (rule_returns now inp (fieldName (snd p))) (rules (snd p))"
      by (rule plain_returns)
    then have f: "snd (failures now inp p)
             = map record_of (filter (rule_fails now inp (fieldName (snd p))) (rules (snd p)))"
      by (simp add: failures_def getErrors_field_def check_all_return)
    have "distinct (map fst (form_fields ?form))"
      using b(1) by (simp add: wf_obj_def obj_keys_def)
    then have "obj_get (form_fields ?form) (fst p) = Some (snd p)"
      using p by (simp add: obj_get_def)
    from build_rule_keys [OF n this]
    have "obj_keys (rules (snd p))
             = first_refs (map rule_of (concat (map (\<lambda>d. snd (snd d)) (filter (\<lambda>d. fst d = fst p) ds))))"
      by (simp add: createForm_def new_FormValidator_def obj_get_def first_refs_def)
    with f show "snd (failures now inp p)
             = map record_of (filter (rule_fails now inp (fieldName (snd p))) (rules (snd p)))
           \<and> obj_keys (rules (snd p))
             = first_refs (map rule_of (concat (map (\<lambda>d. snd (snd d)) (filter (\<lambda>d. fst d = fst p) ds))))"
      by blast
  qed
  have 4: "getCompiledMessage tok (new_FormValidationError flds msg)
           = join (case tok of None \<Rightarrow> [CHR 0x0A] | Some t \<Rightarrow> t)
               (concat (map (\<lambda>p. map message (snd p)) flds))"
    by (simp add: getCompiledMessage_def new_FormValidationError_def)
  from 1 b(1) b(5) 3 4 show ?thesis by blast
qed

theorem error_order_witness:
  "list_all (\<lambda>d. fst d \<notin> set object_prototype_names)
     ([(''email'', None, [Required None, Email None]), (''7'', None, [Required None]),
      (''email'', Some ''address'', [Required (Some ''Tell us your ${label}.'')])] :: field_decl list)
   \<and> wf_obj (form_fields (build toLowerCase example_moments 0
        [(''email'', None, [Required None, Email None]), (''7'', None, [Required None]),
         (''email'', Some ''address'', [Required (Some ''Tell us your ${label}.'')])]
        (createForm (\<lambda>k. None))))
   \<and> getErrors (fst (validate 0 (build toLowerCase example_moments 0
        [(''email'', None, [Required None, Email None]), (''7'', None, [Required None]),
         (''email'', Some ''address'', [Required (Some ''Tell us your ${label}.'')])]
        (createForm (\<lambda>k. None))))) =
       [(''7'', [\<lparr>rule = ''required'', message = ''The 7 field is required.''\<rparr>]),
        (''email'', [\<lparr>rule = ''required'', message = ''Tell us your email.''\<rparr>,
                     \<lparr>rule = ''email'', message = ''The email must be a valid email address.''\<rparr>])]
   \<and> getCompiledMessage None (new_FormValidationError (getErrors (fst (validate 0 (build toLowerCase example_moments 0
        [(''email'', None, [Required None, Email None]), (''7'', None, [Required None]),
         (''email'', Some ''address'', [Required (Some ''Tell us your ${label}.'')])]
        (createForm (\<lambda>k. None)))))) None)
      = ''The 7 field is required.'' @ [CHR 0x0A] @ ''Tell us your email.'' @ [CHR 0x0A]
        @ ''The email must be a valid email address.''"
proof -
  have a: "list_all (\<lambda>d. fst d \<notin> set object_prototype_names)
     ([(''email'', None, [Required None, Email None]), (''7'', None, [Required None]),
      (''email'', Some ''address'', [Required (Some ''Tell us your ${label}.'')])] :: field_decl list)"
    by code_simp
  have b: "getErrors (fst (validate 0 (build toLowerCase example_moments 0
        [(''email'', None, [Required None, Email None]), (''7'', None, [Required None]),
         (''email'', Some ''address'', [Required (Some ''Tell us your ${label}.'')])]
        (createForm (\<lambda>k. None))))) =
       [(''7'', [\<lparr>rule = ''required'', message = ''The 7 field is required.''\<rparr>]),
        (''email'', [\<lparr>rule = ''required'', message = ''Tell us your email.''\<rparr>,
                     \<lparr>rule = ''email'', message = ''The email must be a valid email address.''\<rparr>])]"
    by code_simp
  have c: "getCompiledMessage None (new_FormValidationError (getErrors (fst (validate 0 (build toLowerCase example_moments 0
        [(''email'', None, [Required None, Email None]), (''7'', None, [Required None]),
         (''email'', Some ''address'', [Required (Some ''Tell us your ${label}.'')])]
        (createForm (\<lambda>k. None)))))) None)
      = ''The 7 field is required.'' @ [CHR 0x0A] @ ''Tell us your email.'' @ [CHR 0x0A]
        @ ''The email must be a valid email address.''"
    by code_simp
  note t = error_order [OF a, where now=0 and earlier=0 and lc=toLowerCase and lib=example_moments and inp="\<lambda>k. None"]
  note w = conjunct1 [OF conjunct2 [OF t]]
  show ?thesis
    by (intro conjI a w b c)
qed

theorem compiled_message_counterexample:
  "getCompiledMessage None (new_FormValidationError (getErrors (fst (validate 0 numbered_form))) None)
     = ''The 1 field is required.'' @ [CHR 0x0A] @ ''The 2 field is required.''
   \<and> first_refs [''2'', ''1''] = [''2'', ''1'']
   \<and> getCompiledMessage None (new_FormValidationError (getErrors (fst (validate 0 numbered_form))) None)
     \<noteq> ''The 2 field is required.'' @ [CHR 0x0A] @ ''The 1 field is required.''"
  by code_simp

text \<open>
  Claim C7, \<open>validateAndThrow\<close>. It runs \<open>validate\<close> and leaves the form as that does.
  When \<open>validate\<close> returns false it throws a \<open>FormValidationError\<close> that carries the error
  map of the form and the message \<open>Invalid form input\<close>; when \<open>validate\<close> returns true
  it returns; what \<open>validate\<close> throws it passes on. So it throws a
  \<open>FormValidationError\<close> exactly when \<open>validate\<close> returns false. A message given to the
  constructor of the error replaces the default one. On a form of which no check throws
  and no field reports errors it returns.
\<close>

theorem validateAndThrow_cases:
  "(snd (validate now this) = Inr False \<longrightarrow>
      validateAndThrow now this =
        (fst (validate now this),
         Inl (Invalid \<lparr>error_fields = getErrors (fst (validate now this)),
                        error_message = ''Invalid form input'',
                        error_name = ''FormValidationError''\<rparr>)))
   \<and> (snd (validate now this) = Inr True \<longrightarrow> validateAndThrow now this = (fst (validate now this), Inr ()))
   \<and> (snd (validate now this) = Inl e \<longrightarrow> validateAndThrow now this = (fst (validate now this), Inl (Passed_on e)))
   \<and> ((\<exists>err. snd (validateAndThrow now this) = Inl (Invalid err)) = (snd (validate now this) = Inr False))
   \<and> error_message (new_FormValidationError flds None) = ''Invalid form input''
   \<and> (msg \<noteq> [] \<longrightarrow> error_message (new_FormValidationError flds (Some msg)) = msg)
   \<and> (wf_obj (form_fields this) \<and> list_all (returns now (input this)) (form_fields this)
        \<and> \<not> list_ex (failed now (input this)) (form_fields this) \<longrightarrow>
        snd (validateAndThrow now this) = Inr ())"
proof -
  obtain this' r where v: "validate now this = (this', r)" by (cases "validate now this")
  have 1: "snd (validate now this) = Inr False \<longrightarrow>
      validateAndThrow now this =
        (fst (validate now this),
         Inl (Invalid \<lparr>error_fields = getErrors (fst (validate now this)),
                        error_message = ''Invalid form input'',
                        error_name = ''FormValidationError''\<rparr>))"
    by (simp add: v validateAndThrow_def new_FormValidationError_def or_default_def)
  have 2: "snd (validate now this) = Inr True \<longrightarrow> validateAndThrow now this = (fst (validate now this), Inr ())"
    by (simp add: v validateAndThrow_def)
  have 3: "snd (validate now this) = Inl e \<longrightarrow> validateAndThrow now this = (fst (validate now this), Inl (Passed_on e))"
    by (simp add: v validateAndThrow_def)
  have 4: "(\<exists>err. snd (validateAndThrow now this) = Inl (Invalid err)) = (snd (validate now this) = Inr False)"
    by (cases r) (auto simp: v validateAndThrow_def)
  have 5: "error_message (new_FormValidationError flds None) = ''Invalid form input''"
    by (simp add: new_FormValidationError_def or_default_def)
  have 6: "msg \<noteq> [] \<longrightarrow> error_message (new_FormValidationError flds (Some msg)) = msg"
    by (simp add: new_FormValidationError_def or_default_def)
  have 7: "wf_obj (form_fields this) \<and> list_all (returns now (input this)) (form_fields this)
        \<and> \<not> list_ex (failed now (input this)) (form_fields this) \<longrightarrow>
        snd (validateAndThrow now this) = Inr ()"
    using validate_all_return [of this now] 2 by auto
  from 1 2 3 4 5 6 7 show ?thesis by blast
qed

theorem validateAndThrow_cases_witness:
  "snd (validate 0 scenario_form) = Inr False
   \<and> validateAndThrow 0 scenario_form =
        (fst (validate 0 scenario_form),
         Inl (Invalid \<lparr>error_fields = getErrors (fst (validate 0 scenario_form)),
                        error_message = ''Invalid form input'',
                        error_name = ''FormValidationError''\<rparr>))
   \<and> getErrors (fst (validate 0 scenario_form)) =
       [(''name'', [\<lparr>rule = ''required'', message = ''The name field is required.''\<rparr>]),
        (''email'', [\<lparr>rule = ''email'', message = ''The email must be a valid email address.''\<rparr>])]
   \<and> snd (validate 0 passing_form) = Inr True
   \<and> validateAndThrow 0 passing_form = (fst (validate 0 passing_form), Inr ())
   \<and> snd (validate 0 rejecting_form) = Inl (Thrown ''store unavailable'')
   \<and> validateAndThrow 0 rejecting_form
        = (fst (validate 0 rejecting_form), Inl (Passed_on (Thrown ''store unavailable'')))
   \<and> ''Bad input'' \<noteq> []
   \<and> error_message (new_FormValidationError [] (Some ''Bad input'')) = ''Bad input''
   \<and> wf_obj (form_fields passing_form)
   \<and> list_all (returns 0 (input passing_form)) (form_fields passing_form)
   \<and> list_ex (failed 0 (input passing_form)) (form_fields passing_form) = False
   \<and> snd (validateAndThrow 0 passing_form) = Inr ()"
proof -
  have a: "snd (validate 0 scenario_form) = Inr False" by code_simp
  have b: "getErrors (fst (validate 0 scenario_form)) =
       [(''name'', [\<lparr>rule = ''required'', message = ''The name field is required.''\<rparr>]),
        (''email'', [\<lparr>rule = ''email'', message = ''The email must be a valid email address.''\<rparr>])]"
    by code_simp
  have c: "snd (validate 0 passing_form) = Inr True" by code_simp
  have d: "snd (validate 0 rejecting_form) = Inl (Thrown ''store unavailable'')" by code_simp
  have e: "''Bad input'' \<noteq> []" by simp
  have f: "wf_obj (form_fields passing_form)" by code_simp
  have g: "list_all (returns 0 (input passing_form)) (form_fields passing_form)" by code_simp
  have h: "list_ex (failed 0 (input passing_form)) (form_fields passing_form) = False" by code_simp
  note t1 = validateAndThrow_cases [where now=0 and this=scenario_form and msg="''Bad input''" and flds="[]"]
  note t2 = validateAndThrow_cases [where now=0 and this=passing_form]
  note t3 = validateAndThrow_cases [where now=0 and this=rejecting_form and e="Thrown ''store unavailable''"]
  show ?thesis
    using a b c d e f g h t1 t2 t3 by blast
qed

text \<open>
  Claim C8, a predicate that throws. Let the predicate of a rule throw, or the promise of
  an asynchronous rule reject, when the rules before it in the field and the fields before
  that field have been checked without a throw. Then \<open>check\<close> of the field throws that
  exception, after the failure records of the rules before and with none for the rule
  itself or for a later one; \<open>validate\<close> throws it too, with the fields after that one
  not checked and with no entry for the field in the error map, which holds the entries
  of the fields before; and \<open>validateAndThrow\<close> passes it on.
\<close>

theorem predicate_exception_propagates:
  assumes "distinct (obj_keys (form_fields this))"
    and "form_fields this = pre_f @ (k, f) # post_f"
    and "list_all (returns now (input this)) pre_f"
    and "rules f = pre_r @ (rk, r) # post_r"
    and "list_all (rule_returns now (input this) (fieldName f)) pre_r"
    and "handle r now (input this) (fieldName f) = Throws e
         \<or> (async r \<and> handle r now (input this) (fieldName f) = Promises (Inl e))"
  shows "check now (input this) f =
           (f\<lparr>errors := map record_of (filter (rule_fails now (input this) (fieldName f)) pre_r)\<rparr>, Inl e)
     \<and> validate now this =
           (this\<lparr>form_fields := map (checked now (input this)) pre_f @ (k, fst (check now (input this) f)) # post_f,
                 fieldErrors := collected now (input this) pre_f []\<rparr>,
            Inl e)
     \<and> validateAndThrow now this = (fst (validate now this), Inl (Passed_on e))
     \<and> obj_get (fieldErrors (fst (validate now this))) k = None"
proof -
  have o: "outcome now (input this) (fieldName f) r = Inl e"
    using assms(6) by (auto simp: outcome_def)
  have c: "check now (input this) f =
           (f\<lparr>errors := map record_of (filter (rule_fails now (input this) (fieldName f)) pre_r)\<rparr>, Inl e)"
    using assms(4) assms(5) o by (rule check_throw)
  then have s: "snd (check now (input this) (snd (k, f))) = Inl e" by simp
  then have nr: "\<not> returns now (input this) (k, f)" by (simp add: returns_def)
  have v: "validate now this =
           (this\<lparr>form_fields := map (checked now (input this)) pre_f @ (k, fst (check now (input this) f)) # post_f,
                 fieldErrors := collected now (input this) pre_f []\<rparr>,
            Inl e)"
    unfolding validate_on_list [OF assms(1)] assms(2)
    using swept_throw [OF assms(3) nr] collected_throw [OF assms(3) nr]
      verdict_throw [OF assms(3) s]
    by (simp add: checked_def)
  have t: "validateAndThrow now this = (fst (validate now this), Inl (Passed_on e))"
    by (simp add: v validateAndThrow_def)
  have "k \<notin> fst ` set pre_f"
    using assms(1) assms(2) by (auto simp: obj_keys_def)
  then have "k \<notin> set (obj_keys (collected now (input this) pre_f []))"
    using keys_collected [of now "input this" pre_f "[]"] by (auto simp: obj_keys_def)
  then have n: "obj_get (fieldErrors (fst (validate now this))) k = None"
    by (simp add: v obj_get_None_iff)
  from c v t n show ?thesis by blast
qed

theorem predicate_exception_propagates_witness:
  "distinct (obj_keys (form_fields rejecting_form))
   \<and> form_fields rejecting_form =
        [(''name'', required None (new_FieldValidator toLowerCase ''name'' None))]
        @ (''code'', code_field)
        # [(''email'', email None (new_FieldValidator toLowerCase ''email'' None))]
   \<and> list_all (returns 0 (input rejecting_form))
        [(''name'', required None (new_FieldValidator toLowerCase ''name'' None))]
   \<and> rules code_field =
        rules (required None (new_FieldValidator toLowerCase ''code'' None))
        @ (''unique'', unique_rule)
        # rules (alpha None (new_FieldValidator toLowerCase ''code'' None))
   \<and> list_all (rule_returns 0 (input rejecting_form) (fieldName code_field))
        (rules (required None (new_FieldValidator toLowerCase ''code'' None)))
   \<and> (handle unique_rule 0 (input rejecting_form) (fieldName code_field) = Throws (Thrown ''store unavailable'')
        \<or> (async unique_rule
            \<and> handle unique_rule 0 (input rejecting_form) (fieldName code_field)
                = Promises (Inl (Thrown ''store unavailable''))))
   \<and> check 0 (input rejecting_form) code_field =
        (code_field\<lparr>errors := map record_of
            (filter (rule_fails 0 (input rejecting_form) (fieldName code_field))
               (rules (required None (new_FieldValidator toLowerCase ''code'' None))))\<rparr>,
         Inl (Thrown ''store unavailable''))
   \<and> snd (validate 0 rejecting_form) = Inl (Thrown ''store unavailable'')
   \<and> validateAndThrow 0 rejecting_form
        = (fst (validate 0 rejecting_form), Inl (Passed_on (Thrown ''store unavailable'')))
   \<and> obj_get (fieldErrors (fst (validate 0 rejecting_form))) ''code'' = None
   \<and> fieldErrors (fst (validate 0 rejecting_form))
        = [(''name'', [\<lparr>rule = ''required'', message = ''The name field is required.''\<rparr>])]
   \<and> map (\<lambda>p. errors (snd p)) (form_fields (fst (validate 0 rejecting_form))) =
        [[\<lparr>rule = ''required'', message = ''The name field is required.''\<rparr>], [], []]"
proof -
  have h1: "distinct (obj_keys (form_fields rejecting_form))" by code_simp
  have h2: "form_fields rejecting_form =
        [(''name'', required None (new_FieldValidator toLowerCase ''name'' None))]
        @ (''code'', code_field)
        # [(''email'', email None (new_FieldValidator toLowerCase ''email'' None))]"
    by (simp add: rejecting_form_def)
  have h3: "list_all (returns 0 (input rejecting_form))
        [(''name'', required None (new_FieldValidator toLowerCase ''name'' None))]"
    by code_simp
  have h4: "rules code_field =
        rules (required None (new_FieldValidator toLowerCase ''code'' None))
        @ (''unique'', unique_rule)
        # rules (alpha None (new_FieldValidator toLowerCase ''code'' None))"
    by (simp add: code_field_def)
  have h5: "list_all (rule_returns 0 (input rejecting_form) (fieldName code_field))
        (rules (required None (new_FieldValidator toLowerCase ''code'' None)))"
    by code_simp
  have h6: "handle unique_rule 0 (input rejecting_form) (fieldName code_field) = Throws (Thrown ''store unavailable'')
        \<or> (async unique_rule
            \<and> handle unique_rule 0 (input rejecting_form) (fieldName code_field)
                = Promises (Inl (Thrown ''store unavailable'')))"
    by (simp add: unique_rule_def)
  have e1: "fieldErrors (fst (validate 0 rejecting_form))
        = [(''name'', [\<lparr>rule = ''required'', message = ''The name field is required.''\<rparr>])]"
    by code_simp
  have e2: "map (\<lambda>p. errors (snd p)) (form_fields (fst (validate 0 rejecting_form))) =
        [[\<lparr>rule = ''required'', message = ''The name field is required.''\<rparr>], [], []]"
    by code_simp
  note t = predicate_exception_propagates [OF h1 h2 h3 h4 h5 h6]
  have v: "snd (validate 0 rejecting_form) = Inl (Thrown ''store unavailable'')"
    using conjunct1 [OF conjunct2 [OF t]] by simp
  show ?thesis
    using h1 h2 h3 h4 h5 h6 e1 e2 v t by blast
qed

section \<open>Validating a form again\<close>

text \<open>
  What a second pass does that the first did not can only come from the clock: a rule whose
  predicate does at the second reading what it did at the first is checked to the same
  effect.
\<close>

lemma check_rules_steady:
  "list_all (\<lambda>q. handle (snd q) later inp (fieldName this) = handle (snd q) now inp (fieldName this)) rs \<Longrightarrow>
   check_rules later inp rs this = check_rules now inp rs this"
proof (induction rs arbitrary: this)
  case Nil
  then show ?case by simp
next
  case (Cons p rs)
  obtain k r where p: "p = (k, r)" by (cases p)
  from Cons.prems have h: "handle r later inp (fieldName this) = handle r now inp (fieldName this)"
    by (simp add: p)
  have n: "\<And>pass. check_rules later inp rs (if \<not> pass then addError k (rule_message r) (Some (attrs r)) this else this)
      = check_rules now inp rs (if \<not> pass then addError k (rule_message r) (Some (attrs r)) this else this)"
    using Cons.prems by (intro Cons.IH) (simp add: p addError_def)
  show ?case
    unfolding p check_rules.simps h n ..
qed

lemma check_steady: "steady now later inp p \<Longrightarrow> check later inp (snd p) = check now inp (snd p)"
  using check_rules_steady [where rs="rules (snd p)" and later=later and inp=inp and now=now
      and this="snd p\<lparr>errors := []\<rparr>"]
  by (simp add: check_def steady_def)

lemma steady_checked: "steady now later inp (checked t i p) = steady now later inp p"
  unfolding steady_def by (subst (1 2 3) checked_def, subst (1 2 3) check_frame) simp

lemma steady_same: "steady now now inp p"
  by (simp add: steady_def list_all_iff)

lemma steady_field:
  assumes "steady now later inp p"
  shows "returns later inp p = returns now inp p" and "checked later inp p = checked now inp p"
    and "failed later inp p = failed now inp p" and "failures later inp p = failures now inp p"
  by (simp_all add: returns_def checked_def failed_def failures_def check_steady [OF assms])

lemma swept_steady:
  "list_all (steady now later inp) ps \<Longrightarrow> swept later inp ps = swept now inp ps"
proof (induction ps)
  case Nil
  then show ?case by simp
next
  case (Cons p ps)
  from Cons.prems have s: "steady now later inp p" and "list_all (steady now later inp) ps" by simp_all
  then have "swept later inp ps = swept now inp ps" by (intro Cons.IH)
  then show ?case by (simp add: steady_field [OF s])
qed

lemma collected_steady:
  "list_all (steady now later inp) ps \<Longrightarrow> collected later inp ps fe = collected now inp ps fe"
proof (induction ps arbitrary: fe)
  case Nil
  then show ?case by simp
next
  case (Cons p ps)
  from Cons.prems have s: "steady now later inp p" and r: "list_all (steady now later inp) ps" by simp_all
  have "\<And>fe. collected later inp ps fe = collected now inp ps fe" by (rule Cons.IH [OF r])
  then show ?case by (simp add: steady_field [OF s])
qed

lemma verdict_steady:
  "list_all (steady now later inp) ps \<Longrightarrow> verdict later inp ps v = verdict now inp ps v"
proof (induction ps arbitrary: v)
  case Nil
  then show ?case by simp
next
  case (Cons p ps)
  from Cons.prems have s: "steady now later inp p" and r: "list_all (steady now later inp) ps" by simp_all
  have "\<And>v. verdict later inp ps v = verdict now inp ps v" by (rule Cons.IH [OF r])
  then show ?case by (simp add: steady_field [OF s] check_steady [OF s] split: sum.splits)
qed

lemma steady_swept:
  "list_all (steady now later inp) (swept t i ps) = list_all (steady now later inp) ps"
  by (induction ps) (auto simp: steady_checked)

lemma validate_steady:
  assumes "distinct (obj_keys (form_fields this))"
    and "list_all (steady now later (input this)) (form_fields this)"
  shows "validate later this = validate now this"
  using assms(2) by (simp add: validate_on_list [OF assms(1)] swept_steady collected_steady verdict_steady)

lemma validate_idem:
  assumes "distinct (obj_keys (form_fields this))"
  shows "validate now (fst (validate now this)) = validate now this"
proof -
  let ?this1 = "fst (validate now this)"
  have v: "validate now this =
     (this\<lparr>form_fields := swept now (input this) (form_fields this),
           fieldErrors := collected now (input this) (form_fields this) []\<rparr>,
      verdict now (input this) (form_fields this) True)"
    by (rule validate_on_list [OF assms])
  have d: "distinct (obj_keys (form_fields ?this1))"
    using assms by (simp add: v obj_keys_def keys_swept)
  show "validate now ?this1 = validate now this"
    by (subst validate_on_list [OF d])
       (simp add: v swept_idem collected_swept verdict_swept)
qed

subsection \<open>The rules of a form that is declared\<close>

text \<open>
  A rule method makes a predicate that reads the clock only where it makes a moment of
  the value of the field; the bound of a date rule is a moment since the rule was attached.
\<close>

lemma call_steady:
  assumes "reads_moment c \<longrightarrow>
     moment_of lib later (getInput inp (fieldName this)) = moment_of lib now (getInput inp (fieldName this))"
  shows "\<exists>r. call lib earlier c this = this\<lparr>rules := obj_set (rule_of c) r (rules this)\<rparr>
           \<and> handle r later inp (fieldName this) = handle r now inp (fieldName this)"
  using assms
  by (cases c)
     (simp_all add: email_def accepted_def after_def date_def required_def afterOrEqual_def
        alpha_def alphaDash_def alphaNum_def array_def before_def beforeOrEqual_def Let_def
        isAfter_def isAfterOrEqual_def isBefore_def isBeforeOrEqual_def isDate_def,
      (rule exI, rule conjI, rule refl, simp)+)

lemma chain_steady:
  assumes "list_ex reads_moment cs \<longrightarrow>
     moment_of lib later (getInput inp (fieldName this)) = moment_of lib now (getInput inp (fieldName this))"
    and "\<forall>r\<in>snd ` set (rules this). handle r later inp (fieldName this) = handle r now inp (fieldName this)"
  shows "\<exists>rs. chain lib earlier cs this = this\<lparr>rules := rs\<rparr>
      \<and> (\<forall>r\<in>snd ` set rs. handle r later inp (fieldName this) = handle r now inp (fieldName this))"
  using assms
proof (induction cs arbitrary: this)
  case Nil
  have "this = this\<lparr>rules := rules this\<rparr>" by simp
  then show ?case unfolding chain_def using Nil.prems(2) by (intro exI [of _ "rules this"]) simp
next
  case (Cons c cs)
  have m: "reads_moment c \<longrightarrow>
     moment_of lib later (getInput inp (fieldName this)) = moment_of lib now (getInput inp (fieldName this))"
    using Cons.prems(1) by simp
  obtain r where c: "call lib earlier c this = this\<lparr>rules := obj_set (rule_of c) r (rules this)\<rparr>"
    and hr: "handle r later inp (fieldName this) = handle r now inp (fieldName this)"
    using call_steady [OF m] by blast
  let ?this1 = "this\<lparr>rules := obj_set (rule_of c) r (rules this)\<rparr>"
  have v: "\<forall>r\<in>snd ` set (rules ?this1). handle r later inp (fieldName ?this1) = handle r now inp (fieldName ?this1)"
    using mem_obj_set [of _ "rule_of c" r "rules this"] hr Cons.prems(2) by fastforce
  have m1: "list_ex reads_moment cs \<longrightarrow>
     moment_of lib later (getInput inp (fieldName ?this1)) = moment_of lib now (getInput inp (fieldName ?this1))"
    using Cons.prems(1) by simp
  obtain rs where ih: "chain lib earlier cs ?this1 = ?this1\<lparr>rules := rs\<rparr>"
      "\<forall>r\<in>snd ` set rs. handle r later inp (fieldName ?this1) = handle r now inp (fieldName ?this1)"
    using Cons.IH [OF m1 v] by blast
  have st: "chain lib earlier (c # cs) this = chain lib earlier cs ?this1"
    by (simp add: chain_def c)
  have "chain lib earlier (c # cs) this = this\<lparr>rules := rs\<rparr>"
    by (simp add: st ih(1))
  moreover have "\<forall>r\<in>snd ` set rs. handle r later inp (fieldName this) = handle r now inp (fieldName this)"
    using ih(2) by simp
  ultimately show ?case by blast
qed

lemma build_steady:
  "list_all (\<lambda>d. fst d \<notin> set object_prototype_names \<and>
       (list_ex reads_moment (snd (snd d)) \<longrightarrow>
          moment_of lib later (getInput inp (fst d)) = moment_of lib now (getInput inp (fst d)))) ds \<Longrightarrow>
   \<forall>p\<in>set (form_fields this). fieldName (snd p) = fst p \<and> steady now later inp p \<Longrightarrow>
   \<forall>p\<in>set (form_fields (build lc lib earlier ds this)). fieldName (snd p) = fst p \<and> steady now later inp p"
proof (induction ds arbitrary: this)
  case Nil
  then show ?case by (simp add: build_def)
next
  case (Cons d ds)
  define f where "f = (case obj_get (form_fields this) (fst d) of
               None \<Rightarrow> new_FieldValidator lc (fst d) (fst (snd d)) | Some f \<Rightarrow> f)"
  let ?this1 = "on_field lc (fst d) (fst (snd d)) (chain lib earlier (snd (snd d))) this"
  from Cons.prems(1) have n: "fst d \<notin> set object_prototype_names"
    and m0: "list_ex reads_moment (snd (snd d)) \<longrightarrow>
          moment_of lib later (getInput inp (fst d)) = moment_of lib now (getInput inp (fst d))"
    and rest: "list_all (\<lambda>d. fst d \<notin> set object_prototype_names \<and>
       (list_ex reads_moment (snd (snd d)) \<longrightarrow>
          moment_of lib later (getInput inp (fst d)) = moment_of lib now (getInput inp (fst d)))) ds"
    by simp_all
  have fn: "fieldName f = fst d"
    and fr: "\<forall>r\<in>snd ` set (rules f). handle r later inp (fieldName f) = handle r now inp (fieldName f)"
  proof -
    show "fieldName f = fst d"
    proof (cases "obj_get (form_fields this) (fst d)")
      case None
      then show ?thesis by (simp add: f_def new_FieldValidator_def)
    next
      case (Some f0)
      then have "(fst d, f0) \<in> set (form_fields this)"
        by (simp add: obj_get_def map_of_SomeD)
      from bspec [OF Cons.prems(2) this] show ?thesis
        by (simp add: f_def Some)
    qed
    then show "\<forall>r\<in>snd ` set (rules f). handle r later inp (fieldName f) = handle r now inp (fieldName f)"
    proof (cases "obj_get (form_fields this) (fst d)")
      case None
      then show ?thesis by (simp add: f_def new_FieldValidator_def)
    next
      case (Some f0)
      then have "(fst d, f0) \<in> set (form_fields this)"
        by (simp add: obj_get_def map_of_SomeD)
      from bspec [OF Cons.prems(2) this] have "steady now later inp (fst d, f0)" by simp
      then show ?thesis
        by (simp add: f_def Some steady_def list_all_iff)
    qed
  qed
  have m: "list_ex reads_moment (snd (snd d)) \<longrightarrow>
     moment_of lib later (getInput inp (fieldName f)) = moment_of lib now (getInput inp (fieldName f))"
    using m0 by (simp add: fn)
  obtain rs where c: "chain lib earlier (snd (snd d)) f = f\<lparr>rules := rs\<rparr>"
    and p: "\<forall>r\<in>snd ` set rs. handle r later inp (fieldName f) = handle r now inp (fieldName f)"
    using chain_steady [OF m fr] by blast
  have s: "form_fields ?this1 = obj_set (fst d) (f\<lparr>rules := rs\<rparr>) (form_fields this)"
    using n c by (simp add: on_field_fields f_def)
  have new: "fieldName (f\<lparr>rules := rs\<rparr>) = fst d \<and> steady now later inp (fst d, f\<lparr>rules := rs\<rparr>)"
    using fn p by (simp add: steady_def list_all_iff)
  have inv: "\<forall>p\<in>set (form_fields ?this1). fieldName (snd p) = fst p \<and> steady now later inp p"
  proof
    fix q assume "q \<in> set (form_fields ?this1)"
    then have "q = (fst d, f\<lparr>rules := rs\<rparr>) \<or> q \<in> set (form_fields this)"
      unfolding s by (rule mem_obj_set)
    then show "fieldName (snd q) = fst q \<and> steady now later inp q"
    proof
      assume "q = (fst d, f\<lparr>rules := rs\<rparr>)"
      then show ?thesis using new by simp
    next
      assume "q \<in> set (form_fields this)"
      then show ?thesis by (rule bspec [OF Cons.prems(2)])
    qed
  qed
  show ?case
    unfolding build_Cons by (rule Cons.IH [OF rest inv])
qed

lemma declared_steady:
  assumes "list_all (\<lambda>d. fst d \<notin> set object_prototype_names \<and>
       (list_ex reads_moment (snd (snd d)) \<longrightarrow>
          moment_of lib later (getInput inp (fst d)) = moment_of lib now (getInput inp (fst d)))) ds"
  shows "list_all (steady now later inp) (form_fields (build lc lib earlier ds (createForm inp)))"
  using build_steady [OF assms, where this="createForm inp" and lc=lc and earlier=earlier]
  by (simp add: createForm_def new_FormValidator_def list_all_iff)

text \<open>
  Claim C5, \<open>validate\<close> twice. A second call, on the form as the first call left it,
  returns or throws what the first did and leaves the form, so its error map, as the first
  left it, provided the predicate of every rule does at the reading of the clock of the
  second call what it does at that of the first; a call at the same reading is such a
  call. A call changes neither the input snapshot nor a rule, and it does not depend on
  the error map or on the failure lists that it finds. The rules of a form that is
  declared through \<open>field\<close> and the rule methods are such rules when, for every field
  that is given a date rule, the library makes the same moment of the field's value at both
  readings. Of a value that is undefined it makes the moment of the current time, and
  there a second call can differ from the first.
\<close>

theorem validate_twice:
  assumes "distinct (obj_keys (form_fields this))"
    and "list_all (steady now later (input this)) (form_fields this)"
  shows "validate later (fst (validate now this)) = validate now this
     \<and> validate now (this\<lparr>fieldErrors := stale\<rparr>) = validate now this
     \<and> check now inp (f\<lparr>errors := old\<rparr>) = check now inp f
     \<and> input (fst (validate now this)) = input this
     \<and> map (\<lambda>p. (fst p, rules (snd p))) (form_fields (fst (validate now this)))
         = map (\<lambda>p. (fst p, rules (snd p))) (form_fields this)
     \<and> steady now now inp p
     \<and> (list_all (\<lambda>d. fst d \<notin> set object_prototype_names \<and>
            (list_ex reads_moment (snd (snd d)) \<longrightarrow>
               moment_of lib later (getInput i (fst d)) = moment_of lib now (getInput i (fst d)))) ds \<longrightarrow>
          distinct (obj_keys (form_fields (build lc lib earlier ds (createForm i))))
          \<and> list_all (steady now later (input (build lc lib earlier ds (createForm i))))
                (form_fields (build lc lib earlier ds (createForm i))))"
proof -
  let ?this1 = "fst (validate now this)"
  have v: "validate now this =
     (this\<lparr>form_fields := swept now (input this) (form_fields this),
           fieldErrors := collected now (input this) (form_fields this) []\<rparr>,
      verdict now (input this) (form_fields this) True)"
    by (rule validate_on_list [OF assms(1)])
  have d: "distinct (obj_keys (form_fields ?this1))"
    using assms(1) by (simp add: v obj_keys_def keys_swept)
  have s: "list_all (steady now later (input ?this1)) (form_fields ?this1)"
    using assms(2) by (simp add: v steady_swept)
  have "validate later ?this1 = validate now ?this1"
    by (rule validate_steady [OF d s])
  then have 1: "validate later ?this1 = validate now this"
    by (simp add: validate_idem [OF assms(1)])
  have 2: "validate now (this\<lparr>fieldErrors := stale\<rparr>) = validate now this"
    by (simp add: validate_def)
  have 3: "check now inp (f\<lparr>errors := old\<rparr>) = check now inp f"
    by (rule check_ignores_errors)
  have 4: "input ?this1 = input this"
    by (simp add: v)
  have 5: "map (\<lambda>p. (fst p, rules (snd p))) (form_fields ?this1)
         = map (\<lambda>p. (fst p, rules (snd p))) (form_fields this)"
    by (simp add: v rules_swept)
  have 6: "steady now now inp p"
    by (rule steady_same)
  have 7: "list_all (\<lambda>d. fst d \<notin> set object_prototype_names \<and>
            (list_ex reads_moment (snd (snd d)) \<longrightarrow>
               moment_of lib later (getInput i (fst d)) = moment_of lib now (getInput i (fst d)))) ds \<longrightarrow>
          distinct (obj_keys (form_fields (build lc lib earlier ds (createForm i))))
          \<and> list_all (steady now later (input (build lc lib earlier ds (createForm i))))
                (form_fields (build lc lib earlier ds (createForm i)))"
  proof
    assume a: "list_all (\<lambda>d. fst d \<notin> set object_prototype_names \<and>
            (list_ex reads_moment (snd (snd d)) \<longrightarrow>
               moment_of lib later (getInput i (fst d)) = moment_of lib now (getInput i (fst d)))) ds"
    then have n: "list_all (\<lambda>d. fst d \<notin> set object_prototype_names) ds"
      by (simp add: list_all_iff)
    note b = declared_form [OF n, where lc=lc and lib=lib and earlier=earlier and inp=i]
    have "distinct (obj_keys (form_fields (build lc lib earlier ds (createForm i))))"
      using b(1) by (simp add: wf_obj_def)
    moreover have "list_all (steady now later (input (build lc lib earlier ds (createForm i))))
                (form_fields (build lc lib earlier ds (createForm i)))"
      unfolding b(3) by (rule declared_steady [OF a])
    ultimately show "distinct (obj_keys (form_fields (build lc lib earlier ds (createForm i))))
          \<and> list_all (steady now later (input (build lc lib earlier ds (createForm i))))
                (form_fields (build lc lib earlier ds (createForm i)))" ..
  qed
  from 1 2 3 4 5 6 7 show ?thesis by (intro conjI)
qed

theorem validate_twice_witness:
  "distinct (obj_keys (form_fields booking_form))
   \<and> list_all (steady 50 150 (input booking_form)) (form_fields booking_form)
   \<and> validate 150 (fst (validate 50 booking_form)) = validate 50 booking_form
   \<and> snd (validate 50 booking_form) = Inr False
   \<and> obj_keys (getErrors (fst (validate 50 booking_form))) = [''end'']
   \<and> validate 50 (booking_form\<lparr>fieldErrors := [(''age'', [])]\<rparr>) = validate 50 booking_form
   \<and> list_all (\<lambda>d. fst d \<notin> set object_prototype_names \<and>
            (list_ex reads_moment (snd (snd d)) \<longrightarrow>
               moment_of example_moments 150 (getInput [''start'' \<mapsto> Num 120, ''end'' \<mapsto> Num 90] (fst d))
                 = moment_of example_moments 50 (getInput [''start'' \<mapsto> Num 120, ''end'' \<mapsto> Num 90] (fst d))))
        ([(''start'', None, [Required None, After (NotMoment (Num 100)) None]),
          (''end'', None, [Before (NotMoment (Num 80)) None])] :: field_decl list)
   \<and> list_all (steady 50 150 (input (build toLowerCase example_moments 0
          [(''start'', None, [Required None, After (NotMoment (Num 100)) None]),
           (''end'', None, [Before (NotMoment (Num 80)) None])]
          (createForm [''start'' \<mapsto> Num 120, ''end'' \<mapsto> Num 90]))))
        (form_fields (build toLowerCase example_moments 0
          [(''start'', None, [Required None, After (NotMoment (Num 100)) None]),
           (''end'', None, [Before (NotMoment (Num 80)) None])]
          (createForm [''start'' \<mapsto> Num 120, ''end'' \<mapsto> Num 90])))"
proof -
  have d: "distinct (obj_keys (form_fields booking_form))"
    by code_simp
  have s: "list_all (steady 50 150 (input booking_form)) (form_fields booking_form)"
    by code_simp
  have r: "snd (validate 50 booking_form) = Inr False"
    by code_simp
  have k: "obj_keys (getErrors (fst (validate 50 booking_form))) = [''end'']"
    by code_simp
  have a: "list_all (\<lambda>d. fst d \<notin> set object_prototype_names \<and>
            (list_ex reads_moment (snd (snd d)) \<longrightarrow>
               moment_of example_moments 150 (getInput [''start'' \<mapsto> Num 120, ''end'' \<mapsto> Num 90] (fst d))
                 = moment_of example_moments 50 (getInput [''start'' \<mapsto> Num 120, ''end'' \<mapsto> Num 90] (fst d))))
        ([(''start'', None, [Required None, After (NotMoment (Num 100)) None]),
          (''end'', None, [Before (NotMoment (Num 80)) None])] :: field_decl list)"
    by (simp add: object_prototype_names_def getInput_def example_moments_def)
  note t = validate_twice [OF d s, where stale="[(''age'', [])]" and lib=example_moments
      and i="[''start'' \<mapsto> Num 120, ''end'' \<mapsto> Num 90]" and lc=toLowerCase and earlier=0
      and ds="[(''start'', None, [Required None, After (NotMoment (Num 100)) None]),
          (''end'', None, [Before (NotMoment (Num 80)) None])]"]
  note t1 = conjunct1 [OF t]
  note t2 = conjunct1 [OF conjunct2 [OF t]]
  note t7 = conjunct2 [OF mp [OF conjunct2 [OF conjunct2 [OF conjunct2 [OF conjunct2 [OF conjunct2 [OF conjunct2 [OF t]]]]]] a]]
  show ?thesis
    by (intro conjI d s t1 r k t2 a t7)
qed

theorem validate_clock_counterexample:
  "snd (validate 50 deadline_form) = Inr False
   \<and> obj_keys (getErrors (fst (validate 50 deadline_form))) = [''start'']
   \<and> snd (validate 150 (fst (validate 50 deadline_form))) = Inr True
   \<and> obj_keys (getErrors (fst (validate 150 (fst (validate 50 deadline_form))))) = []
   \<and> snd (validate 150 (fst (validate 50 deadline_form))) \<noteq> snd (validate 50 deadline_form)"
  by code_simp

end
